theory Spec2Isabelle
  imports Main "HOL-Library.Extended_Nat" "HOL-Library.Sublist" "HOL-Library.AList"
begin

section \<open>UpdateChecker: numeric dotted version comparison\<close>

text \<open>
  Source: \<^verbatim>\<open>src/core/ModuleUpdater.ts\<close>, \<^verbatim>\<open>compareVersions\<close>.

  \<^verbatim>\<open>
  public compareVersions(v1: string, v2: string): number {
    const parts1 = v1.split(".").map(Number);
    const parts2 = v2.split(".").map(Number);
    for (let i = 0; i < Math.max(parts1.length, parts2.length); i++) {
      const part1 = i < parts1.length ? parts1[i] : 0;
      const part2 = i < parts2.length ? parts2[i] : 0;
      if (part1 > part2) return 1;
      if (part1 < part2) return -1;
    }
    return 0;
  }
  \<close>

  A version component is a JavaScript number. Only the values a version component can
  take are represented: \<open>NaN\<close>, and the non-negative numbers with \<open>Num \<infinity>\<close> for
  \<^verbatim>\<open>Infinity\<close>.
\<close>

datatype jsnum = NaN | Num enat

text \<open>\<^verbatim>\<open>a > b\<close> and \<^verbatim>\<open>a < b\<close> on numbers: both are false as soon as one side is NaN.\<close>

fun js_gt :: "jsnum \<Rightarrow> jsnum \<Rightarrow> bool" where
  "js_gt (Num a) (Num b) = (b < a)"
| "js_gt _ _ = False"

fun js_lt :: "jsnum \<Rightarrow> jsnum \<Rightarrow> bool" where
  "js_lt (Num a) (Num b) = (a < b)"
| "js_lt _ _ = False"

text \<open>
  \<^verbatim>\<open>String.prototype.split(".")\<close>: the pieces between the dots; a string without a dot
  (the empty string too) gives one piece.
\<close>

fun split_dot :: "string \<Rightarrow> string list" where
  "split_dot [] = [[]]"
| "split_dot (c # cs) =
     (if c = CHR ''.'' then [] # split_dot cs
      else (case split_dot cs of
              [] \<Rightarrow> [[c]]
            | p # ps \<Rightarrow> (c # p) # ps))"

definition is_digit :: "char \<Rightarrow> bool" where
  "is_digit c = (c \<in> set ''0123456789'')"

definition digit_value :: "char \<Rightarrow> nat" where
  "digit_value c = of_char c - 48"

definition decimal_value :: "string \<Rightarrow> nat" where
  "decimal_value s = foldl (\<lambda>acc c. 10 * acc + digit_value c) 0 s"

text \<open>
  The number of binary digits of a natural number, and the rounding of a natural
  number to the nearest double (53 significant bits, ties to the even significand,
  \<^verbatim>\<open>Infinity\<close> from \<open>2 ^ 1024\<close> on). Below \<open>2 ^ 53\<close> every natural number is a double.
\<close>

fun bit_count :: "nat \<Rightarrow> nat" where
  "bit_count n = (if n = 0 then 0 else Suc (bit_count (n div 2)))"

declare bit_count.simps [simp del]

definition to_double :: "nat \<Rightarrow> jsnum" where
  "to_double n =
     (if n < 2 ^ 53 then Num (enat n)
      else
        let e = bit_count n - 53;
            q = n div 2 ^ e;
            r = n mod 2 ^ e;
            h = 2 ^ (e - 1);
            q' = (if h < r \<or> (r = h \<and> odd q) then q + 1 else q);
            v = q' * 2 ^ e
        in if 2 ^ 1024 \<le> v then Num \<infinity> else Num (enat v))"

text \<open>
  The builtin \<^verbatim>\<open>Number\<close> applied to a string, for the two shapes a piece of a dotted
  numeric version has: the empty string is 0, a string of decimal digits is its value
  rounded to a double. Every other string is mapped to \<open>NaN\<close>; the builtin's further
  literal forms (signs, exponents, radix prefixes, white space) are not represented,
  and the results below are stated for decimal numerals only.
\<close>

definition Number :: "string \<Rightarrow> jsnum" where
  "Number s =
     (if s = [] then Num 0
      else if list_all is_digit s then to_double (decimal_value s)
      else NaN)"

function compare_from :: "jsnum list \<Rightarrow> jsnum list \<Rightarrow> nat \<Rightarrow> int" where
  "compare_from parts1 parts2 i =
     (if i < max (length parts1) (length parts2) then
        (let part1 = (if i < length parts1 then parts1 ! i else Num 0);
             part2 = (if i < length parts2 then parts2 ! i else Num 0)
         in if js_gt part1 part2 then 1
            else if js_lt part1 part2 then - 1
            else compare_from parts1 parts2 (Suc i))
      else 0)"
  by pat_completeness auto
termination
  by (relation "measure (\<lambda>(parts1, parts2, i). max (length parts1) (length parts2) - i)") auto

declare compare_from.simps [simp del]

definition version_parts :: "string \<Rightarrow> jsnum list" where
  "version_parts v = map Number (split_dot v)"

definition compareVersions :: "string \<Rightarrow> string \<Rightarrow> int" where
  "compareVersions v1 v2 = compare_from (version_parts v1) (version_parts v2) 0"

text \<open>A dot-separated sequence of decimal numerals: every piece is a non-empty digit string.\<close>

definition dotted_numerals :: "string \<Rightarrow> bool" where
  "dotted_numerals v = list_all (\<lambda>p. p \<noteq> [] \<and> list_all is_digit p) (split_dot v)"

text \<open>Zero-padding of a list of components to a given length.\<close>

definition pad_zero :: "nat \<Rightarrow> jsnum list \<Rightarrow> jsnum list" where
  "pad_zero n ps = ps @ replicate (n - length ps) (Num 0)"

text \<open>The component the loop reads at index \<open>i\<close>.\<close>

definition part_at :: "jsnum list \<Rightarrow> nat \<Rightarrow> jsnum" where
  "part_at ps i = (if i < length ps then ps ! i else Num 0)"

text \<open>A list of components none of which is NaN.\<close>

definition all_num :: "jsnum list \<Rightarrow> bool" where
  "all_num ps = list_all (\<lambda>p. p \<noteq> NaN) ps"

text \<open>
  The components of a version string as the natural numbers its pieces denote, the
  zero-padding of such a list, and the strings all of whose components are below
  \<open>2 ^ 53\<close>, where the conversion to a double is exact.
\<close>

definition components :: "string \<Rightarrow> nat list" where
  "components v = map decimal_value (split_dot v)"

definition pad_components :: "nat \<Rightarrow> nat list \<Rightarrow> nat list" where
  "pad_components n cs = cs @ replicate (n - length cs) 0"

definition exact_components :: "string \<Rightarrow> bool" where
  "exact_components v = list_all (\<lambda>c. c < 2 ^ 53) (components v)"

section \<open>Module: the lifecycle state machine\<close>

text \<open>
  Source: \<^verbatim>\<open>src/types/index.ts\<close> (\<^verbatim>\<open>ModuleState\<close>) and \<^verbatim>\<open>src/core/Module.ts\<close>.
  The enum has ten members; \<open>WARNING\<close> and \<open>DEBUG\<close> are used for log annotations only.
\<close>

datatype ModuleState =
    UNINITIALIZED | INITIALIZING | INITIALIZED | STARTING | RUNNING
  | STOPPING | STOPPED | ERROR | WARNING | DEBUG

text \<open>
  A module object: the metadata accessors (\<^verbatim>\<open>name\<close>, \<^verbatim>\<open>dependencies\<close>, \<^verbatim>\<open>disabled\<close>,
  \<^verbatim>\<open>priority\<close>), the private fields \<^verbatim>\<open>_state\<close>, \<^verbatim>\<open>_error\<close> and \<^verbatim>\<open>_permissions\<close>,
  the names of the events that have a listener attached, whether
  \<^verbatim>\<open>setModuleManager\<close> has stored a manager, and the method \<^verbatim>\<open>checkModulePermission\<close>
  that an authorisation module may expose (module name, action, resource). Errors are
  represented by their messages.
\<close>

record Module =
  name :: string
  dependencies :: "string list"
  disabled :: bool
  priority :: int
  state :: ModuleState
  error :: "string option"
  permissions :: "string \<rightharpoonup> string set"
  listeners :: "string list"
  managerAttached :: bool
  checkModulePermission :: "(string \<Rightarrow> string \<Rightarrow> string \<Rightarrow> bool) option"

text \<open>
  A freshly constructed module: state \<^verbatim>\<open>UNINITIALIZED\<close>, no error, no permission, the
  constructor's own \<^verbatim>\<open>stateChange\<close> listener, no manager, default priority 50.
\<close>

definition new_module :: "string \<Rightarrow> string list \<Rightarrow> Module" where
  "new_module nm deps =
     \<lparr> name = nm, dependencies = deps, disabled = False, priority = 50,
       state = UNINITIALIZED, error = None, permissions = Map.empty,
       listeners = [''stateChange''], managerAttached = False,
       checkModulePermission = None \<rparr>"

text \<open>
  What a lifecycle call does besides changing the module: the \<^verbatim>\<open>stateChange\<close> and
  \<^verbatim>\<open>error\<close> events it emits and the warnings it logs.
\<close>

datatype Effect =
    StateChange ModuleState ModuleState
  | ErrorEvent string string
  | LogWarn

text \<open>
  \<^verbatim>\<open>setState(state)\<close>: stores the state; emits \<^verbatim>\<open>stateChange(state, previousState)\<close> only
  when the state changed.
\<close>

definition setState :: "ModuleState \<Rightarrow> Module \<Rightarrow> Module \<times> Effect list" where
  "setState s m = (m\<lparr>state := s\<rparr>, if state m \<noteq> s then [StateChange s (state m)] else [])"

text \<open>\<^verbatim>\<open>handleError(operation, error)\<close>: stores the error, enters \<^verbatim>\<open>ERROR\<close>, emits \<^verbatim>\<open>error\<close>.\<close>

definition handleError :: "string \<Rightarrow> string \<Rightarrow> Module \<Rightarrow> Module \<times> Effect list" where
  "handleError operation err m =
     (let (m1, e1) = setState ERROR (m\<lparr>error := Some err\<rparr>)
      in (m1, e1 @ [ErrorEvent err operation]))"

text \<open>
  The three lifecycle calls. The hook of the concrete module (\<^verbatim>\<open>onInitialize\<close>,
  \<^verbatim>\<open>onStart\<close>, \<^verbatim>\<open>onStop\<close>) is represented by its outcome: \<open>None\<close> when it resolves,
  \<open>Some err\<close> when it throws \<open>err\<close>. The first component of the result is the error the
  call throws to its caller (\<open>None\<close>: it returns normally).

  \<^verbatim>\<open>
  public async initialize(): Promise<void> {
    if (this._state !== ModuleState.UNINITIALIZED) { this.logger.warn(...); return; }
    try {
      this.setState(ModuleState.INITIALIZING);
      await this.onInitialize();
      this.setState(ModuleState.INITIALIZED);
    } catch (error) { this.handleError("initialization", error); throw error; }
  }
  \<close>
\<close>

definition initialize :: "string option \<Rightarrow> Module \<Rightarrow> string option \<times> Module \<times> Effect list" where
  "initialize onInitialize m =
     (if state m \<noteq> UNINITIALIZED then (None, m, [LogWarn])
      else
        let (m1, e1) = setState INITIALIZING m in
        (case onInitialize of
           None \<Rightarrow> (let (m2, e2) = setState INITIALIZED m1 in (None, m2, e1 @ e2))
         | Some err \<Rightarrow>
             (let (m2, e2) = handleError ''initialization'' err m1 in (Some err, m2, e1 @ e2))))"

definition start :: "string option \<Rightarrow> Module \<Rightarrow> string option \<times> Module \<times> Effect list" where
  "start onStart m =
     (if state m \<noteq> INITIALIZED \<and> state m \<noteq> STOPPED then (None, m, [LogWarn])
      else
        let (m1, e1) = setState STARTING m in
        (case onStart of
           None \<Rightarrow> (let (m2, e2) = setState RUNNING m1 in (None, m2, e1 @ e2))
         | Some err \<Rightarrow>
             (let (m2, e2) = handleError ''start'' err m1 in (Some err, m2, e1 @ e2))))"

definition stop :: "string option \<Rightarrow> Module \<Rightarrow> string option \<times> Module \<times> Effect list" where
  "stop onStop m =
     (if state m \<noteq> RUNNING then (None, m, [LogWarn])
      else
        let (m1, e1) = setState STOPPING m in
        (case onStop of
           None \<Rightarrow> (let (m2, e2) = setState STOPPED m1 in (None, m2, e1 @ e2))
         | Some err \<Rightarrow>
             (let (m2, e2) = handleError ''stop'' err m1 in (Some err, m2, e1 @ e2))))"

text \<open>\<^verbatim>\<open>restart()\<close>: \<^verbatim>\<open>await this.stop(); await this.start();\<close>\<close>

definition restart ::
  "string option \<Rightarrow> string option \<Rightarrow> Module \<Rightarrow> string option \<times> Module \<times> Effect list" where
  "restart onStop onStart m =
     (case stop onStop m of
        (Some err, m1, e1) \<Rightarrow> (Some err, m1, e1)
      | (None, m1, e1) \<Rightarrow>
          (case start onStart m1 of (r, m2, e2) \<Rightarrow> (r, m2, e1 @ e2)))"

text \<open>
  \<^verbatim>\<open>
  public reset(): void {
    this._error = null;
    this.setState(ModuleState.UNINITIALIZED);
    this.logger.info(...);
  }
  \<close>
\<close>

definition reset :: "Module \<Rightarrow> Module \<times> Effect list" where
  "reset m = setState UNINITIALIZED (m\<lparr>error := None\<rparr>)"

definition hasError :: "Module \<Rightarrow> bool" where
  "hasError m = (state m = ERROR \<or> error m \<noteq> None)"

text \<open>A call of one of the five public lifecycle operations, with the outcome of its hooks.\<close>

datatype LifecycleCall =
    Initialize "string option"
  | Start "string option"
  | Stop "string option"
  | Restart "string option" "string option"
  | Reset

fun run_call :: "Module \<Rightarrow> LifecycleCall \<Rightarrow> Module \<times> Effect list" where
  "run_call m (Initialize h) = (case initialize h m of (r, m', es) \<Rightarrow> (m', es))"
| "run_call m (Start h) = (case start h m of (r, m', es) \<Rightarrow> (m', es))"
| "run_call m (Stop h) = (case stop h m of (r, m', es) \<Rightarrow> (m', es))"
| "run_call m (Restart h1 h2) = (case restart h1 h2 m of (r, m', es) \<Rightarrow> (m', es))"
| "run_call m Reset = reset m"

fun run_calls :: "Module \<Rightarrow> LifecycleCall list \<Rightarrow> Module \<times> Effect list" where
  "run_calls m [] = (m, [])"
| "run_calls m (c # cs) =
     (case run_call m c of (m1, e1) \<Rightarrow>
        (case run_calls m1 cs of (m2, e2) \<Rightarrow> (m2, e1 @ e2)))"

text \<open>
  The table of legal transitions of the specification (section 3, ``Legal
  transitions''), as a predicate on (previous state, next state).
\<close>

fun legal_transition :: "ModuleState \<Rightarrow> ModuleState \<Rightarrow> bool" where
  "legal_transition UNINITIALIZED s = (s = INITIALIZING)"
| "legal_transition INITIALIZING s = (s = INITIALIZED \<or> s = ERROR)"
| "legal_transition INITIALIZED s = (s = STARTING)"
| "legal_transition STARTING s = (s = RUNNING \<or> s = ERROR)"
| "legal_transition RUNNING s = (s = STOPPING)"
| "legal_transition STOPPING s = (s = STOPPED \<or> s = ERROR)"
| "legal_transition STOPPED s = (s = STARTING)"
| "legal_transition ERROR s = (s = UNINITIALIZED)"
| "legal_transition WARNING s = False"
| "legal_transition DEBUG s = False"

text \<open>An effect is lawful when it is no state change or a legal one.\<close>

fun lawful :: "Effect \<Rightarrow> bool" where
  "lawful (StateChange new previous) = legal_transition previous new"
| "lawful _ = True"

text \<open>A state change to \<^verbatim>\<open>UNINITIALIZED\<close>: what \<^verbatim>\<open>reset()\<close> emits.\<close>

definition reset_change :: "Effect \<Rightarrow> bool" where
  "reset_change e = (case e of StateChange new previous \<Rightarrow> new = UNINITIALIZED | _ \<Rightarrow> False)"

section \<open>MemoryInspector: snapshot rings and growth analysis\<close>

text \<open>
  Source: \<^verbatim>\<open>src/core/ModuleMemoryInspector.ts\<close>. A snapshot holds the time stamp
  (\<^verbatim>\<open>Date.now()\<close>, milliseconds), the process heap counters (bytes) and the reference
  count. JavaScript numbers are modelled exactly here: integers for the time stamps and
  byte counts, rationals for the thresholds and the computed rates.
\<close>

record ModuleMemorySnapshot =
  timestamp :: int
  heapUsed :: int
  heapTotal :: int
  external :: int
  arrayBuffers :: int
  references :: nat

text \<open>The result of \<^verbatim>\<open>process.memoryUsage()\<close>.\<close>

record MemoryUsage =
  mu_heapUsed :: int
  mu_heapTotal :: int
  mu_external :: int
  mu_arrayBuffers :: int

record Thresholds =
  low :: rat
  medium :: rat
  high :: rat

record MemoryInspectorOptions =
  snapshotInterval :: nat
  maxSnapshots :: nat
  thresholds :: Thresholds
  autoStart :: bool

text \<open>The defaults the constructor fills in.\<close>

definition default_options :: MemoryInspectorOptions where
  "default_options =
     \<lparr> snapshotInterval = 300000, maxSnapshots = 12,
       thresholds = \<lparr> low = 5, medium = 20, high = 50 \<rparr>, autoStart = True \<rparr>"

text \<open>
  The inspector: the map from module names to their snapshot arrays, in insertion order
  (\<^verbatim>\<open>Map.set\<close> on a present key keeps its position: \<open>AList.update\<close>), and the options.
\<close>

record ModuleMemoryInspector =
  snapshots :: "(string \<times> ModuleMemorySnapshot list) list"
  options :: MemoryInspectorOptions

definition new_inspector :: "MemoryInspectorOptions \<Rightarrow> ModuleMemoryInspector" where
  "new_inspector opts = \<lparr> snapshots = [], options = opts \<rparr>"

text \<open>
  \<^verbatim>\<open>countReferences(module)\<close>: the number of other modules that list this one among
  their dependencies.
\<close>

definition countReferences :: "Module list \<Rightarrow> Module \<Rightarrow> nat" where
  "countReferences mods m =
     length (filter (\<lambda>other. name other \<noteq> name m \<and> name m \<in> set (dependencies other)) mods)"

text \<open>
  The body of the second \<^verbatim>\<open>forEach\<close> of \<^verbatim>\<open>takeSnapshot\<close>, for one module:

  \<^verbatim>\<open>
  if (module.disabled) return;
  const snapshot = { timestamp: Date.now(), heapUsed: memoryUsage.heapUsed, ...,
                     references: this.countReferences(module) };
  const moduleSnapshots = this.snapshots.get(module.name) || [];
  moduleSnapshots.push(snapshot);
  if (moduleSnapshots.length > this.options.maxSnapshots) { moduleSnapshots.shift(); }
  this.snapshots.set(module.name, moduleSnapshots);
  \<close>

  \<open>now\<close> gives the value \<^verbatim>\<open>Date.now()\<close> has when the snapshot of a module is created.
\<close>

definition push_snapshot ::
  "nat \<Rightarrow> ModuleMemorySnapshot \<Rightarrow> ModuleMemorySnapshot list \<Rightarrow> ModuleMemorySnapshot list" where
  "push_snapshot limit snapshot moduleSnapshots =
     (let pushed = moduleSnapshots @ [snapshot]
      in if limit < length pushed then tl pushed else pushed)"

definition make_snapshot ::
  "Module list \<Rightarrow> MemoryUsage \<Rightarrow> (string \<Rightarrow> int) \<Rightarrow> Module \<Rightarrow> ModuleMemorySnapshot" where
  "make_snapshot mods memoryUsage now m =
     \<lparr> timestamp = now (name m), heapUsed = mu_heapUsed memoryUsage,
       heapTotal = mu_heapTotal memoryUsage, external = mu_external memoryUsage,
       arrayBuffers = mu_arrayBuffers memoryUsage, references = countReferences mods m \<rparr>"

definition ring_of :: "(string \<times> ModuleMemorySnapshot list) list \<Rightarrow> string \<Rightarrow> ModuleMemorySnapshot list" where
  "ring_of snaps n = (case map_of snaps n of None \<Rightarrow> [] | Some ring \<Rightarrow> ring)"

definition snapshot_module ::
  "nat \<Rightarrow> Module list \<Rightarrow> MemoryUsage \<Rightarrow> (string \<Rightarrow> int) \<Rightarrow>
   (string \<times> ModuleMemorySnapshot list) list \<Rightarrow> Module \<Rightarrow>
   (string \<times> ModuleMemorySnapshot list) list" where
  "snapshot_module limit mods memoryUsage now snaps m =
     (if disabled m then snaps
      else AList.update (name m)
             (push_snapshot limit (make_snapshot mods memoryUsage now m) (ring_of snaps (name m)))
             snaps)"

text \<open>
  \<^verbatim>\<open>takeSnapshot()\<close> with the modules \<^verbatim>\<open>getAllModules()\<close> returns and the heap counters
  read at the call. (The weak references it also refreshes are not represented.)
\<close>

definition takeSnapshot ::
  "ModuleMemoryInspector \<Rightarrow> Module list \<Rightarrow> MemoryUsage \<Rightarrow> (string \<Rightarrow> int) \<Rightarrow> ModuleMemoryInspector" where
  "takeSnapshot insp mods memoryUsage now =
     insp\<lparr>snapshots :=
       foldl (snapshot_module (maxSnapshots (options insp)) mods memoryUsage now)
         (snapshots insp) mods\<rparr>"

definition getModuleSnapshots :: "ModuleMemoryInspector \<Rightarrow> string \<Rightarrow> ModuleMemorySnapshot list option" where
  "getModuleSnapshots insp moduleName = map_of (snapshots insp) moduleName"

text \<open>A run of the inspector: the constructor, then \<^verbatim>\<open>takeSnapshot\<close> calls one after another.\<close>

fun take_snapshots ::
  "ModuleMemoryInspector \<Rightarrow> (Module list \<times> MemoryUsage \<times> (string \<Rightarrow> int)) list \<Rightarrow> ModuleMemoryInspector" where
  "take_snapshots insp [] = insp"
| "take_snapshots insp ((mods, memoryUsage, now) # calls) =
     take_snapshots (takeSnapshot insp mods memoryUsage now) calls"

text \<open>Every ring of the inspector holds at most \<^verbatim>\<open>maxSnapshots\<close> entries.\<close>

definition rings_bounded :: "ModuleMemoryInspector \<Rightarrow> bool" where
  "rings_bounded insp =
     list_all (\<lambda>(n, ring). length ring \<le> maxSnapshots (options insp)) (snapshots insp)"

text \<open>
  \<^verbatim>\<open>analyzeMemoryUsage()\<close>, the body of its loop for one entry of the map:

  \<^verbatim>\<open>
  if (snapshots.length < 2) continue;
  const oldestSnapshot = snapshots[0];
  const newestSnapshot = snapshots[snapshots.length - 1];
  const timeElapsedHours =
    (newestSnapshot.timestamp - oldestSnapshot.timestamp) / 1000 / 60 / 60;
  if (timeElapsedHours < 0.01) continue;
  const heapGrowthMB = (newestSnapshot.heapUsed - oldestSnapshot.heapUsed) / 1024 / 1024;
  const growthRateMBPerHour = heapGrowthMB / timeElapsedHours;
  let severity = "low";
  if (growthRateMBPerHour >= this.options.thresholds.high) { severity = "high"; }
  else if (growthRateMBPerHour >= this.options.thresholds.medium) { severity = "medium"; }
  else if (growthRateMBPerHour >= this.options.thresholds.low) { severity = "low"; }
  else { continue; }
  results.push({ moduleName, severity, growthRate: growthRateMBPerHour, snapshots,
                 recommendation });
  \<close>
\<close>

datatype Severity = SeverityLow | SeverityMedium | SeverityHigh

record MemoryLeakResult =
  leak_moduleName :: string
  severity :: Severity
  growthRate :: rat
  leak_snapshots :: "ModuleMemorySnapshot list"
  recommendation :: string

definition recommendation_for :: "Severity \<Rightarrow> string" where
  "recommendation_for s =
     (if s = SeverityHigh then
        ''Urgent: Check for event listeners, caches, or collections that aren't being cleaned up.''
      else if s = SeverityMedium then
        ''Review module cleanup in onStop() method and check for retained references.''
      else ''Monitor memory usage over time.'')"

text \<open>
  The arithmetic of \<^verbatim>\<open>analyzeMemoryUsage\<close> is that of JavaScript numbers, IEEE doubles. A
  finite double is represented by the rational number it denotes, and every operation
  rounds its exact result to the nearest double, ties to the even significand:
  \<open>round_double\<close>. A double has 53 significant bits; its last bit weighs \<open>2 ^ (e - 52)\<close>
  when the value lies in \<open>[2 ^ e, 2 ^ (e + 1))\<close>, and never less than \<open>2 ^ (- 1074)\<close>
  (subnormal numbers). \<^verbatim>\<open>Infinity\<close> and \<^verbatim>\<open>NaN\<close> are not represented: the timestamps
  (\<^verbatim>\<open>Date.now()\<close>) and byte counts (\<^verbatim>\<open>process.memoryUsage()\<close>) of a snapshot are integers
  below \<open>2 ^ 53\<close>, their differences and quotients stay far below \<open>2 ^ 1024\<close>, and no
  division by zero is reached (the divisor \<^verbatim>\<open>timeElapsedHours\<close> is at least \<^verbatim>\<open>0.01\<close>).
\<close>

definition pow2 :: "int \<Rightarrow> rat" where
  "pow2 e = (if 0 \<le> e then 2 ^ nat e else 1 / 2 ^ nat (- e))"

text \<open>Rounding to the nearest integer, a tie to the even one.\<close>

definition round_half_even :: "rat \<Rightarrow> int" where
  "round_half_even x =
     (let f = \<lfloor>x\<rfloor>; r = x - of_int f
      in if r < 1 / 2 then f else if 1 / 2 < r then f + 1 else if even f then f else f + 1)"

text \<open>The \<open>e\<close> with \<open>2 ^ e \<le> x < 2 ^ (e + 1)\<close>, for a positive \<open>x\<close>.\<close>

definition binary_exponent :: "rat \<Rightarrow> int" where
  "binary_exponent x =
     (let e = (if 1 \<le> x then int (bit_count (nat \<lfloor>x\<rfloor>)) - 1
               else 1 - int (bit_count (nat \<lfloor>1 / x\<rfloor>)))
      in if x < pow2 e then e - 1 else e)"

text \<open>The weight of the last significant bit of the doubles around a positive \<open>x\<close>.\<close>

definition quantum :: "rat \<Rightarrow> rat" where
  "quantum x = pow2 (max (binary_exponent x) (- 1022) - 52)"

definition round_double :: "rat \<Rightarrow> rat" where
  "round_double x =
     (if x = 0 then 0
      else sgn x * of_int (round_half_even (\<bar>x\<bar> / quantum \<bar>x\<bar>)) * quantum \<bar>x\<bar>)"

text \<open>The operators \<^verbatim>\<open>/\<close> and \<^verbatim>\<open>-\<close> on numbers.\<close>

definition fdiv :: "rat \<Rightarrow> rat \<Rightarrow> rat" where
  "fdiv x y = round_double (x / y)"

definition fsub :: "rat \<Rightarrow> rat \<Rightarrow> rat" where
  "fsub x y = round_double (x - y)"

text \<open>
  The body of the loop of \<^verbatim>\<open>analyzeMemoryUsage\<close> for one entry of the map; \<open>None\<close> is
  \<^verbatim>\<open>continue\<close>. The literal \<^verbatim>\<open>0.01\<close> is the double nearest to one hundredth.

  \<^verbatim>\<open>
  if (snapshots.length < 2) continue;
  const oldestSnapshot = snapshots[0];
  const newestSnapshot = snapshots[snapshots.length - 1];
  const timeElapsedHours =
    (newestSnapshot.timestamp - oldestSnapshot.timestamp) / 1000 / 60 / 60;
  if (timeElapsedHours < 0.01) continue;
  const heapGrowthMB =
    (newestSnapshot.heapUsed - oldestSnapshot.heapUsed) / 1024 / 1024;
  const growthRateMBPerHour = heapGrowthMB / timeElapsedHours;
  let severity = "low";
  if (growthRateMBPerHour >= this.options.thresholds.high) { severity = "high"; }
  else if (growthRateMBPerHour >= this.options.thresholds.medium) { severity = "medium"; }
  else if (growthRateMBPerHour >= this.options.thresholds.low) { severity = "low"; }
  else { continue; }
  \<close>
\<close>

definition analyze_entry :: "Thresholds \<Rightarrow> string \<Rightarrow> ModuleMemorySnapshot list \<Rightarrow> MemoryLeakResult option" where
  "analyze_entry th n ss =
     (if length ss < 2 then None
      else
        let oldestSnapshot = ss ! 0;
            newestSnapshot = ss ! (length ss - 1);
            timeElapsedHours =
              fdiv (fdiv (fdiv (fsub (of_int (timestamp newestSnapshot))
                                     (of_int (timestamp oldestSnapshot))) 1000) 60) 60
        in if timeElapsedHours < round_double (1 / 100) then None
           else
             let heapGrowthMB =
                   fdiv (fdiv (fsub (of_int (heapUsed newestSnapshot))
                                    (of_int (heapUsed oldestSnapshot))) 1024) 1024;
                 growthRateMBPerHour = fdiv heapGrowthMB timeElapsedHours;
                 found = (\<lambda>s. Some \<lparr> leak_moduleName = n, severity = s,
                                      growthRate = growthRateMBPerHour, leak_snapshots = ss,
                                      recommendation = recommendation_for s \<rparr>)
             in if high th \<le> growthRateMBPerHour then found SeverityHigh
                else if medium th \<le> growthRateMBPerHour then found SeverityMedium
                else if low th \<le> growthRateMBPerHour then found SeverityLow
                else None)"

definition analyzeMemoryUsage :: "ModuleMemoryInspector \<Rightarrow> MemoryLeakResult list" where
  "analyzeMemoryUsage insp =
     List.map_filter (\<lambda>(n, ss). analyze_entry (thresholds (options insp)) n ss) (snapshots insp)"

text \<open>
  The growth rate of a ring: megabytes gained between the oldest and the newest
  snapshot, per hour elapsed. \<open>growth_rate\<close> is the number the program computes, every
  operation rounded; \<open>exact_growth_rate\<close> is the quotient
  \<open>((newest.heapUsed - oldest.heapUsed) / 2 ^ 20) / elapsedHours\<close> of the description,
  in exact arithmetic.
\<close>

definition elapsed_ms :: "ModuleMemorySnapshot list \<Rightarrow> int" where
  "elapsed_ms ss = timestamp (last ss) - timestamp (hd ss)"

definition elapsed_hours :: "ModuleMemorySnapshot list \<Rightarrow> rat" where
  "elapsed_hours ss =
     fdiv (fdiv (fdiv (fsub (of_int (timestamp (last ss))) (of_int (timestamp (hd ss)))) 1000) 60) 60"

definition growth_rate :: "ModuleMemorySnapshot list \<Rightarrow> rat" where
  "growth_rate ss =
     fdiv (fdiv (fdiv (fsub (of_int (heapUsed (last ss))) (of_int (heapUsed (hd ss)))) 1024) 1024)
       (elapsed_hours ss)"

definition exact_growth_rate :: "ModuleMemorySnapshot list \<Rightarrow> rat" where
  "exact_growth_rate ss =
     (rat_of_int (heapUsed (last ss) - heapUsed (hd ss)) / 2 ^ 20)
       / (rat_of_int (elapsed_ms ss) / 3600000)"

text \<open>The finding reported for a ring, at a given severity.\<close>

definition finding :: "string \<Rightarrow> ModuleMemorySnapshot list \<Rightarrow> Severity \<Rightarrow> MemoryLeakResult" where
  "finding n ss s =
     \<lparr> leak_moduleName = n, severity = s, growthRate = growth_rate ss, leak_snapshots = ss,
       recommendation = recommendation_for s \<rparr>"

text \<open>
  A snapshot with a given timestamp and heap size, and three inspectors holding one ring
  of two snapshots for a module \<open>X\<close>: 25 MB gained in one hour under the default
  thresholds; 30 MB gained in one hour under thresholds that are not in increasing order;
  901120 bytes gained in 61875 ms, a rate of exactly 50 MB per hour, under the default
  thresholds.
\<close>

definition snapshot_at :: "int \<Rightarrow> int \<Rightarrow> ModuleMemorySnapshot" where
  "snapshot_at t h =
     \<lparr> timestamp = t, heapUsed = h, heapTotal = 209715200, external = 0, arrayBuffers = 0,
       references = 0 \<rparr>"

definition leak_inspector :: ModuleMemoryInspector where
  "leak_inspector =
     \<lparr> snapshots = [(''X'', [snapshot_at 1000 104857600, snapshot_at 3601000 131072000])],
       options = default_options \<rparr>"

definition unordered_inspector :: ModuleMemoryInspector where
  "unordered_inspector =
     \<lparr> snapshots = [(''X'', [snapshot_at 0 0, snapshot_at 3600000 31457280])],
       options = default_options\<lparr>thresholds := \<lparr> low = 50, medium = 20, high = 100 \<rparr>\<rparr> \<rparr>"

definition boundary_inspector :: ModuleMemoryInspector where
  "boundary_inspector =
     \<lparr> snapshots = [(''X'', [snapshot_at 0 0, snapshot_at 61875 901120])],
       options = default_options \<rparr>"

section \<open>Manager: registry, permissions, registration and loading\<close>

text \<open>
  Source: \<^verbatim>\<open>src/core/ModuleManager.ts\<close>. The registry \<^verbatim>\<open>modules\<close> is a
  \<^verbatim>\<open>Map<string, Module>\<close> whose key is always the module's own name
  (\<^verbatim>\<open>this.modules.set(module.name, module)\<close> is its only writer): it is the list of the
  registered modules in insertion order, looked up by name. \<^verbatim>\<open>recoveryAttempts\<close> is the
  per-module counter of the recovery supervisor, \<^verbatim>\<open>timers\<close> the recovery callbacks that
  \<^verbatim>\<open>setTimeout\<close> holds, each with the module name and the attempt number its closure
  captured (all with the same delay, so they fire in the order they were scheduled),
  \<^verbatim>\<open>moduleLoadPromises\<close> the settled results of earlier loads. \<^verbatim>\<open>journal\<close> records what
  the supervisor does, in order: a timer it sets, the warning that the limit is
  reached, the start of a recovery run, the deletion of the counter after a successful
  run, a failed run. Plugins, health metrics and the
  configuration store are not represented: no plugin is registered.
\<close>

datatype ManagerError =
    AlreadyRegistered string
  | ImportFailed string
  | NotAModuleSubclass string
  | CircularDependency "string list" string
  | ModuleNotFound string
  | NotInitialized

datatype LoadResult = Loaded | Disabled

datatype Action =
    Scheduled string nat
  | LimitReached string
  | Attempting string nat
  | Recovered string
  | RecoveryFailed string

record RecoveryOptions =
  enabled :: bool
  maxAttempts :: nat
  delayMs :: nat

record ModuleManager =
  modules :: "Module list"
  initialized :: bool
  manager_autoStart :: bool
  recoveryOptions :: RecoveryOptions
  recoveryAttempts :: "string \<rightharpoonup> nat"
  timers :: "(string \<times> nat) list"
  moduleLoadPromises :: "(string \<times> (ManagerError + LoadResult)) list"
  journal :: "Action list"

text \<open>The constructor: \<^verbatim>\<open>autoStart\<close> defaults to true, recovery to disabled, 3 attempts, 5000 ms.\<close>

definition default_recovery :: RecoveryOptions where
  "default_recovery = \<lparr> enabled = False, maxAttempts = 3, delayMs = 5000 \<rparr>"

definition new_manager :: "bool \<Rightarrow> RecoveryOptions \<Rightarrow> ModuleManager" where
  "new_manager auto recovery =
     \<lparr> modules = [], initialized = False, manager_autoStart = auto,
       recoveryOptions = recovery, recoveryAttempts = Map.empty, timers = [],
       moduleLoadPromises = [], journal = [] \<rparr>"

definition getModule :: "ModuleManager \<Rightarrow> string \<Rightarrow> Module option" where
  "getModule mgr n = find (\<lambda>m. name m = n) (modules mgr)"

definition has_module :: "ModuleManager \<Rightarrow> string \<Rightarrow> bool" where
  "has_module mgr n = (n \<in> name ` set (modules mgr))"

text \<open>
  \<^verbatim>\<open>
  protected async checkPermission(action, resource): Promise<boolean> {
    const resourcePermissions = this._permissions.get(resource);
    if (resourcePermissions && resourcePermissions.has(action)) { return true; }
    if (this.moduleManager) {
      const authModule = this.moduleManager.getModule("auth");
      if (authModule && typeof (authModule as any).checkModulePermission === "function") {
        return await (authModule as any).checkModulePermission(this.name, action, resource);
      }
    }
    return true;
  }
  \<close>

  The first argument is the module's \<^verbatim>\<open>moduleManager\<close> reference (\<open>None\<close>: not set).
\<close>

definition locally_granted :: "Module \<Rightarrow> string \<Rightarrow> string \<Rightarrow> bool" where
  "locally_granted m action resource =
     (case permissions m resource of
        None \<Rightarrow> False
      | Some resourcePermissions \<Rightarrow> action \<in> resourcePermissions)"

definition checkPermission :: "ModuleManager option \<Rightarrow> Module \<Rightarrow> string \<Rightarrow> string \<Rightarrow> bool" where
  "checkPermission moduleManager m action resource =
     (if locally_granted m action resource then True
      else
        (case moduleManager of
           None \<Rightarrow> True
         | Some mgr \<Rightarrow>
             (case getModule mgr ''auth'' of
                None \<Rightarrow> True
              | Some authModule \<Rightarrow>
                  (case checkModulePermission authModule of
                     None \<Rightarrow> True
                   | Some check \<Rightarrow> check (name m) action resource))))"

text \<open>\<^verbatim>\<open>grantPermission(action, resource)\<close>: adds the action to the resource's set.\<close>

definition grantPermission :: "string \<Rightarrow> string \<Rightarrow> Module \<Rightarrow> Module" where
  "grantPermission action resource m =
     m\<lparr>permissions := (permissions m)(resource \<mapsto>
         (case permissions m resource of
            None \<Rightarrow> {action}
          | Some resourcePermissions \<Rightarrow> insert action resourcePermissions))\<rparr>"

text \<open>
  \<^verbatim>\<open>
  public async registerModule(module: Module): Promise<void> {
    if (this.modules.has(module.name)) {
      throw new Error(`Module ${module.name} is already registered`);
    }
    if (module.disabled) { /* debug log */ return; }
    module.on("error", ...);
    module.on("stateChange", ...);
    module.setModuleManager(this);
    this.modules.set(module.name, module);
  }
  \<close>

  The result is the error thrown, or the manager and the module object after the call.
\<close>

definition registerModule :: "ModuleManager \<Rightarrow> Module \<Rightarrow> ManagerError + ModuleManager \<times> Module" where
  "registerModule mgr m =
     (if has_module mgr (name m) then Inl (AlreadyRegistered (name m))
      else if disabled m then Inr (mgr, m)
      else
        let m' = m\<lparr>listeners := listeners m @ [''error'', ''stateChange''],
                    managerAttached := True\<rparr>
        in Inr (mgr\<lparr>modules := modules mgr @ [m']\<rparr>, m'))"

text \<open>
  What \<^verbatim>\<open>import(modulePath)\<close> gives for a module directory: the import fails, or the
  default export is missing or no subclass of \<^verbatim>\<open>Module\<close>, or it is a module class, given
  by the object its constructor builds.
\<close>

datatype ImportResult = ImportFails string | NoModuleClass | ModuleClass Module

text \<open>
  \<^verbatim>\<open>loadModuleFromPath(modulePath, dir)\<close>. \<open>configDisabled\<close> tells whether the stored
  configuration of a module has \<^verbatim>\<open>disabled === true\<close>. Every error is logged and thrown
  again.
\<close>

definition loadModuleFromPath ::
  "(string \<Rightarrow> ImportResult) \<Rightarrow> (string \<Rightarrow> bool) \<Rightarrow> ModuleManager \<Rightarrow> string \<Rightarrow>
   ManagerError + LoadResult \<times> ModuleManager" where
  "loadModuleFromPath imports configDisabled mgr dir =
     (case imports dir of
        ImportFails e \<Rightarrow> Inl (ImportFailed e)
      | NoModuleClass \<Rightarrow> Inl (NotAModuleSubclass dir)
      | ModuleClass m0 \<Rightarrow>
          (let m = m0\<lparr>managerAttached := True\<rparr>;
               isDisabled = (disabled m \<or> configDisabled (name m))
           in if isDisabled then Inr (Disabled, mgr)
              else
                (case registerModule mgr m of
                   Inl e \<Rightarrow> Inl e
                 | Inr (mgr', m') \<Rightarrow> Inr (Loaded, mgr'))))"

text \<open>
  The tallies of \<^verbatim>\<open>loadModules\<close>, the manager, and the rejection of the first callback that
  threw, if any.
\<close>

record LoadState =
  load_manager :: ModuleManager
  loadedCount :: nat
  disabledCount :: nat
  errorCount :: nat
  rejected :: "ManagerError option"

text \<open>
  The callback \<^verbatim>\<open>loadModules\<close> maps over the module directories:

  \<^verbatim>\<open>
  async (dir) => {
    try {
      if (this.moduleLoadPromises.has(dir)) { await this.moduleLoadPromises.get(dir); return; }
      ...
      const loadPromise = this.loadModuleFromPath(modulePath, dir);
      this.moduleLoadPromises.set(dir, loadPromise);
      const result = await loadPromise;
      if (result === "loaded") { loadedCount++; }
      else if (result === "disabled") { disabledCount++; }
    } catch (error) {
      errorCount++;
      this.logger.error(...);
      throw error;
    }
  }
  \<close>

  The callbacks run interleaved under \<^verbatim>\<open>Promise.all\<close>; each of them runs to its end
  whatever the others do. They are taken here one after the other, in the order of the
  directories, and \<open>rejected\<close> keeps the error of the first one that threw. When
  several callbacks throw, \<^verbatim>\<open>Promise.all\<close> rejects with the error thrown first in time,
  which need not be the first in the order of the directories: which of several errors is
  thrown again is not settled by this representation, that one of them is thrown is. With
  a single failing directory there is no choice.
\<close>

definition reject_with :: "ManagerError \<Rightarrow> LoadState \<Rightarrow> LoadState" where
  "reject_with e ls =
     ls\<lparr>errorCount := errorCount ls + 1,
        rejected := (case rejected ls of None \<Rightarrow> Some e | Some e0 \<Rightarrow> Some e0)\<rparr>"

definition load_directory ::
  "(string \<Rightarrow> ImportResult) \<Rightarrow> (string \<Rightarrow> bool) \<Rightarrow> LoadState \<Rightarrow> string \<Rightarrow> LoadState" where
  "load_directory imports configDisabled ls dir =
     (let mgr = load_manager ls in
      case map_of (moduleLoadPromises mgr) dir of
        Some (Inl e) \<Rightarrow> reject_with e ls
      | Some (Inr r) \<Rightarrow> ls
      | None \<Rightarrow>
          (case loadModuleFromPath imports configDisabled mgr dir of
             Inl e \<Rightarrow>
               reject_with e
                 (ls\<lparr>load_manager :=
                    mgr\<lparr>moduleLoadPromises := moduleLoadPromises mgr @ [(dir, Inl e)]\<rparr>\<rparr>)
           | Inr (r, mgr') \<Rightarrow>
               (let ls' = ls\<lparr>load_manager :=
                            mgr'\<lparr>moduleLoadPromises := moduleLoadPromises mgr' @ [(dir, Inr r)]\<rparr>\<rparr>
                in if r = Loaded then ls'\<lparr>loadedCount := loadedCount ls' + 1\<rparr>
                   else ls'\<lparr>disabledCount := disabledCount ls' + 1\<rparr>)))"

text \<open>
  \<^verbatim>\<open>loadModules()\<close> over the module directories found under \<^verbatim>\<open>modulesPath\<close>:

  \<^verbatim>\<open>
  try {
    ...
    await Promise.all(validDirectories.map(async (dir) => { ... }));
    this.logger.info({ message: `Module discovery completed ...: ${loadedCount} loaded,
      ${disabledCount} disabled, ${errorCount} failed`, ... });
    this.validateDependencies();
  } catch (error) {
    this.logger.error({ message: "Failed to load modules:", ... });
    throw error;
  }
  \<close>

  \<^verbatim>\<open>Promise.all\<close> rejects as soon as one callback has thrown, and \<^verbatim>\<open>loadModules\<close> throws
  that error again: \<open>Inl\<close>. Otherwise the tally is logged, the dependencies are
  validated (warnings only) and the call returns: \<open>Inr\<close>. In both cases the second
  component is the state once every callback has run.
\<close>

definition loadModules ::
  "(string \<Rightarrow> ImportResult) \<Rightarrow> (string \<Rightarrow> bool) \<Rightarrow> ModuleManager \<Rightarrow> string list \<Rightarrow>
   (ManagerError + unit) \<times> LoadState" where
  "loadModules imports configDisabled mgr validDirectories =
     (let ls = foldl (load_directory imports configDisabled)
                 \<lparr> load_manager = mgr, loadedCount = 0, disabledCount = 0, errorCount = 0,
                   rejected = None \<rparr>
                 validDirectories
      in case rejected ls of
           Some e \<Rightarrow> (Inl e, ls)
         | None \<Rightarrow> (Inr (), ls))"

text \<open>
  A manager whose registry holds an authorisation module that permits reading only, and
  an import table with one well-formed module directory; both are used as concrete
  inputs below.
\<close>

definition auth_manager :: ModuleManager where
  "auth_manager =
     (new_manager True default_recovery)\<lparr>modules :=
        [(new_module ''auth'' [])\<lparr>checkModulePermission := Some (\<lambda>n a r. a = ''read'')\<rparr>]\<rparr>"

definition two_directories :: "string \<Rightarrow> ImportResult" where
  "two_directories dir =
     (if dir = ''good'' then ModuleClass (new_module ''good'' []) else NoModuleClass)"

section \<open>Manager: topological ordering\<close>

text \<open>
  \<^verbatim>\<open>sortModulesByDependencies\<close>: a depth-first search over the registry. Its three local
  variables are the state of the search: the set \<^verbatim>\<open>visited\<close>, the array \<^verbatim>\<open>sorted\<close> and the
  set \<^verbatim>\<open>visiting\<close> (JavaScript sets keep insertion order, which the error message shows).

  \<^verbatim>\<open>
  const visit = (moduleName: string) => {
    if (visited.has(moduleName)) return;
    if (visiting.has(moduleName)) {
      const cycle = Array.from(visiting).join(" -> ") + " -> " + moduleName;
      throw new Error(`Circular dependency detected: ${cycle}`);
    }
    visiting.add(moduleName);
    const module = this.modules.get(moduleName);
    if (!module) { throw new Error(`Module ${moduleName} not found`); }
    for (const depName of module.dependencies) {
      if (this.modules.has(depName)) { visit(depName); }
    }
    visiting.delete(moduleName);
    visited.add(moduleName);
    sorted.push(module);
  };
  \<close>
\<close>

record SortState =
  visited :: "string list"
  sorted_mods :: "Module list"
  visiting :: "string list"

function visit :: "Module list \<Rightarrow> string \<Rightarrow> SortState \<Rightarrow> ManagerError + SortState"
  and visit_dependencies :: "Module list \<Rightarrow> string list \<Rightarrow> SortState \<Rightarrow> ManagerError + SortState"
where
  "visit mods moduleName st =
     (if moduleName \<in> set (visited st) then Inr st
      else if moduleName \<in> set (visiting st) then
        Inl (CircularDependency (visiting st) moduleName)
      else
        (case find (\<lambda>m. name m = moduleName) mods of
           None \<Rightarrow> Inl (ModuleNotFound moduleName)
         | Some mdl \<Rightarrow>
             (case visit_dependencies mods (dependencies mdl)
                     (st\<lparr>visiting := visiting st @ [moduleName]\<rparr>) of
                Inl e \<Rightarrow> Inl e
              | Inr st' \<Rightarrow>
                  Inr (st'\<lparr>visiting := removeAll moduleName (visiting st'),
                          visited := visited st' @ [moduleName],
                          sorted_mods := sorted_mods st' @ [mdl]\<rparr>))))"
| "visit_dependencies mods [] st = Inr st"
| "visit_dependencies mods (depName # rest) st =
     (if depName \<in> name ` set mods then
        (case visit mods depName st of
           Inl e \<Rightarrow> Inl e
         | Inr st' \<Rightarrow> visit_dependencies mods rest st')
      else visit_dependencies mods rest st)"
  by pat_completeness auto

lemma find_name_Some:
  "find (\<lambda>m. name m = n) ms = Some m \<Longrightarrow> name m = n \<and> m \<in> set ms"
  by (induction ms) (auto split: if_splits)

lemma visit_keeps_visiting_partial:
  shows "visit_visit_dependencies_dom (Inl (mods, n, st)) \<Longrightarrow>
         (\<forall>st'. visit mods n st = Inr st' \<longrightarrow> visiting st' = visiting st)"
    and "visit_visit_dependencies_dom (Inr (mods, ds, st)) \<Longrightarrow>
         (\<forall>st'. visit_dependencies mods ds st = Inr st' \<longrightarrow> visiting st' = visiting st)"
proof (induct rule: visit_visit_dependencies.pinduct)
  case (1 mods moduleName st)
  show ?case
  proof (intro allI impI)
    fix st' assume r: "visit mods moduleName st = Inr st'"
    show "visiting st' = visiting st"
    proof (cases "moduleName \<in> set (visited st)")
      case True
      then show ?thesis using r "1.hyps"(1) by (simp add: visit.psimps)
    next
      case nv: False
      show ?thesis
      proof (cases "moduleName \<in> set (visiting st)")
        case True
        then show ?thesis using r nv "1.hyps"(1) by (simp add: visit.psimps)
      next
        case ni: False
        show ?thesis
        proof (cases "find (\<lambda>m. name m = moduleName) mods")
          case None
          then show ?thesis using r nv ni "1.hyps"(1) by (simp add: visit.psimps)
        next
          case (Some mdl)
          let ?st1 = "st\<lparr>visiting := visiting st @ [moduleName]\<rparr>"
          show ?thesis
          proof (cases "visit_dependencies mods (dependencies mdl) ?st1")
            case (Inl e)
            then show ?thesis using r nv ni Some "1.hyps"(1) by (simp add: visit.psimps)
          next
            case (Inr st2)
            have "visiting st2 = visiting ?st1"
              using "1.hyps"(2) [OF nv ni Some] Inr by simp
            moreover have "st' = st2\<lparr>visiting := removeAll moduleName (visiting st2),
                          visited := visited st2 @ [moduleName],
                          sorted_mods := sorted_mods st2 @ [mdl]\<rparr>"
              using r nv ni Some Inr "1.hyps"(1) by (simp add: visit.psimps)
            ultimately show ?thesis using ni by simp
          qed
        qed
      qed
    qed
  qed
next
  case (2 mods st)
  then show ?case by (simp add: visit_dependencies.psimps)
next
  case (3 mods depName rest st)
  show ?case
  proof (intro allI impI)
    fix st' assume r: "visit_dependencies mods (depName # rest) st = Inr st'"
    show "visiting st' = visiting st"
    proof (cases "depName \<in> name ` set mods")
      case True
      show ?thesis
      proof (cases "visit mods depName st")
        case (Inl e)
        then show ?thesis using r True "3.hyps"(1) by (simp add: visit_dependencies.psimps)
      next
        case (Inr st1)
        have a: "visiting st1 = visiting st" using "3.hyps"(2) [OF True] Inr by simp
        have "visit_dependencies mods rest st1 = Inr st'"
          using r True Inr "3.hyps"(1) by (simp add: visit_dependencies.psimps)
        then have "visiting st' = visiting st1" using "3.hyps"(3) [OF True Inr] by simp
        then show ?thesis using a by simp
      qed
    next
      case False
      then have "visit_dependencies mods rest st = Inr st'"
        using r "3.hyps"(1) by (simp add: visit_dependencies.psimps)
      then show ?thesis using "3.hyps"(4) [OF False] by simp
    qed
  qed
qed

termination visit
proof (relation "measures
    [\<lambda>x. case x of Inl (mods, n, st) \<Rightarrow> card (name ` set mods - set (visiting st))
              | Inr (mods, ds, st) \<Rightarrow> card (name ` set mods - set (visiting st)),
     \<lambda>x. case x of Inl (mods, n, st) \<Rightarrow> 0 | Inr (mods, ds, st) \<Rightarrow> Suc (length ds)]",
    goal_cases)
  case 1
  then show ?case by simp
next
  case (2 mods moduleName st mdl)
  have "moduleName \<in> name ` set mods" using find_name_Some [OF 2(3)] by auto
  then have "name ` set mods - set (visiting st @ [moduleName])
      \<subset> name ` set mods - set (visiting st)" using 2(2) by auto
  then have "card (name ` set mods - set (visiting st @ [moduleName]))
      < card (name ` set mods - set (visiting st))"
    by (intro psubset_card_mono) auto
  then show ?case by simp
next
  case (3 mods depName rest st)
  then show ?case by simp
next
  case (4 mods depName rest st x2)
  then have "visiting x2 = visiting st" using visit_keeps_visiting_partial(1) by blast
  then show ?case by simp
next
  case (5 mods depName rest st)
  then show ?case by simp
qed


declare visit.simps [simp del] visit_dependencies.simps [simp del]

text \<open>
  The seeds of the search: the registry entries sorted by descending priority
  (\<^verbatim>\<open>(b.priority || 0) - (a.priority || 0)\<close>; \<^verbatim>\<open>Array.prototype.sort\<close> is stable), each
  visited unless it is visited already.
\<close>

fun visit_all :: "Module list \<Rightarrow> string list \<Rightarrow> SortState \<Rightarrow> ManagerError + SortState" where
  "visit_all mods [] st = Inr st"
| "visit_all mods (moduleName # rest) st =
     (if moduleName \<in> set (visited st) then visit_all mods rest st
      else
        (case visit mods moduleName st of
           Inl e \<Rightarrow> Inl e
         | Inr st' \<Rightarrow> visit_all mods rest st'))"

definition modulesByPriority :: "Module list \<Rightarrow> Module list" where
  "modulesByPriority mods = sort_key (\<lambda>m. - priority m) mods"

definition sortModulesByDependencies :: "Module list \<Rightarrow> ManagerError + Module list" where
  "sortModulesByDependencies mods =
     (case visit_all mods (map name (modulesByPriority mods))
             \<lparr> visited = [], sorted_mods = [], visiting = [] \<rparr> of
        Inl e \<Rightarrow> Inl e
      | Inr st \<Rightarrow> Inr (sorted_mods st))"

definition dep_edge :: "Module list \<Rightarrow> string \<Rightarrow> string \<Rightarrow> bool" where
  "dep_edge mods a b =
     (b \<in> name ` set mods \<and> (\<exists>m\<in>set mods. name m = a \<and> b \<in> set (dependencies m)))"

fun chain :: "Module list \<Rightarrow> string list \<Rightarrow> bool" where
  "chain mods [] = True"
| "chain mods [a] = True"
| "chain mods (a # b # rest) = (dep_edge mods a b \<and> chain mods (b # rest))"

definition precedes :: "'a \<Rightarrow> 'a \<Rightarrow> 'a list \<Rightarrow> bool" where
  "precedes a b xs = (\<exists>pre mid post. xs = pre @ a # mid @ b # post)"

fun deps_first :: "Module list \<Rightarrow> string set \<Rightarrow> Module list \<Rightarrow> bool" where
  "deps_first mods seen [] = True"
| "deps_first mods seen (m # ms) =
     ((\<forall>d\<in>set (dependencies m). d \<in> name ` set mods \<longrightarrow> d \<in> seen)
      \<and> deps_first mods (insert (name m) seen) ms)"

definition sort_inv :: "Module list \<Rightarrow> SortState \<Rightarrow> bool" where
  "sort_inv mods st =
     (visited st = map name (sorted_mods st)
      \<and> distinct (visited st)
      \<and> set (sorted_mods st) \<subseteq> set mods
      \<and> deps_first mods {} (sorted_mods st)
      \<and> (\<forall>n\<in>set (visited st). n \<notin> set (visiting st)))"


text \<open>The position of the first occurrence of an element in a list.\<close>

definition position :: "'a list \<Rightarrow> 'a \<Rightarrow> nat" where
  "position xs x = length (takeWhile (\<lambda>y. y \<noteq> x) xs)"

text \<open>\<^verbatim>\<open>Array.prototype.join\<close>, and the messages of the errors the manager throws.\<close>

fun join_with :: "string \<Rightarrow> string list \<Rightarrow> string" where
  "join_with sep [] = []"
| "join_with sep [x] = x"
| "join_with sep (x # y # rest) = x @ sep @ join_with sep (y # rest)"

fun error_message :: "ManagerError \<Rightarrow> string" where
  "error_message (AlreadyRegistered n) = ''Module '' @ n @ '' is already registered''"
| "error_message (ImportFailed e) = e"
| "error_message (NotAModuleSubclass dir) =
     ''Invalid module in '' @ dir @ '': Not a Module subclass''"
| "error_message (CircularDependency path n) =
     ''Circular dependency detected: '' @ join_with '' -> '' path @ '' -> '' @ n"
| "error_message (ModuleNotFound n) = ''Module '' @ n @ '' not found''"
| "error_message NotInitialized =
     ''ModuleManager must be initialized before starting modules''"

section \<open>Manager: the recovery supervisor\<close>

text \<open>
  \<^verbatim>\<open>
  private async attemptModuleRecovery(moduleName: string): Promise<void> {
    const attempts = this.recoveryAttempts.get(moduleName) || 0;
    if (attempts >= this.recoveryOptions.maxAttempts) { this.logger.warn(...); return; }
    this.recoveryAttempts.set(moduleName, attempts + 1);
    setTimeout(async () => { ... }, this.recoveryOptions.delayMs);
  }
  \<close>
\<close>

definition attemptModuleRecovery :: "ModuleManager \<Rightarrow> string \<Rightarrow> ModuleManager" where
  "attemptModuleRecovery mgr moduleName =
     (let attempts = (case recoveryAttempts mgr moduleName of None \<Rightarrow> 0 | Some a \<Rightarrow> a)
      in if maxAttempts (recoveryOptions mgr) \<le> attempts then
           mgr\<lparr>journal := journal mgr @ [LimitReached moduleName]\<rparr>
         else
           mgr\<lparr>recoveryAttempts := (recoveryAttempts mgr)(moduleName \<mapsto> attempts + 1),
               timers := timers mgr @ [(moduleName, attempts + 1)],
               journal := journal mgr @ [Scheduled moduleName (attempts + 1)]\<rparr>)"

text \<open>
  The listener the constructor installs for \<^verbatim>\<open>moduleError\<close>:

  \<^verbatim>\<open>
  this.on("moduleError", (error, moduleName, operation) => {
    this.emit("error", error, moduleName, operation);
    if (this.recoveryOptions.enabled && moduleName && operation !== "initialization") {
      this.attemptModuleRecovery(moduleName);
    }
  });
  \<close>
\<close>

definition on_moduleError :: "ModuleManager \<Rightarrow> string \<Rightarrow> string \<Rightarrow> ModuleManager" where
  "on_moduleError mgr moduleName operation =
     (if enabled (recoveryOptions mgr) \<and> moduleName \<noteq> [] \<and> operation \<noteq> ''initialization''
      then attemptModuleRecovery mgr moduleName
      else mgr)"

text \<open>
  The listener \<^verbatim>\<open>registerModule\<close> attaches to a module's \<^verbatim>\<open>error\<close> event emits
  \<^verbatim>\<open>moduleError(error, module.name, operation)\<close>; \<open>deliver\<close> hands the events a lifecycle
  call of a registered module emitted to it. \<open>put_module\<close> stores the module object
  after a call at its place in the registry (the registry holds the object itself).
\<close>

fun deliver :: "ModuleManager \<Rightarrow> string \<Rightarrow> Effect list \<Rightarrow> ModuleManager" where
  "deliver mgr n [] = mgr"
| "deliver mgr n (ErrorEvent err operation # es) = deliver (on_moduleError mgr n operation) n es"
| "deliver mgr n (e # es) = deliver mgr n es"

definition put_module :: "ModuleManager \<Rightarrow> Module \<Rightarrow> ModuleManager" where
  "put_module mgr m =
     mgr\<lparr>modules := map (\<lambda>x. if name x = name m then m else x) (modules mgr)\<rparr>"

text \<open>
  The callback of the timer, for the module name and attempt number it captured, with
  the outcomes of the module's \<^verbatim>\<open>onInitialize\<close> and \<^verbatim>\<open>onStart\<close> hooks:

  \<^verbatim>\<open>
  try {
    const module = this.getModule(moduleName);
    if (!module || !module.hasError()) return;
    this.logger.info(`Attempting to recover module ...`);
    module.reset();
    await module.initialize();
    await module.start();
    this.recoveryAttempts.delete(moduleName);
    this.logger.info(`Module ${moduleName} successfully recovered`);
  } catch (error) {
    this.logger.error(`Failed to recover module ${moduleName}:`, error);
  }
  \<close>
\<close>

definition recovery_run ::
  "string option \<Rightarrow> string option \<Rightarrow> ModuleManager \<Rightarrow> string \<Rightarrow> Module \<Rightarrow>
   bool \<times> ModuleManager" where
  "recovery_run onInitialize onStart mgr moduleName mdl =
     (let (m1, e1) = reset mdl;
          (r2, m2, e2) = initialize onInitialize m1;
          mgr2 = deliver (put_module mgr m2) moduleName (e1 @ e2)
      in case r2 of
           Some err \<Rightarrow> (False, mgr2\<lparr>journal := journal mgr2 @ [RecoveryFailed moduleName]\<rparr>)
         | None \<Rightarrow>
             (let (r3, m3, e3) = start onStart m2;
                  mgr3 = deliver (put_module mgr2 m3) moduleName e3
              in case r3 of
                   Some err \<Rightarrow>
                     (False, mgr3\<lparr>journal := journal mgr3 @ [RecoveryFailed moduleName]\<rparr>)
                 | None \<Rightarrow>
                     (True,
                      mgr3\<lparr>recoveryAttempts := (recoveryAttempts mgr3)(moduleName := None),
                           journal := journal mgr3 @ [Recovered moduleName]\<rparr>)))"

definition recovery_callback ::
  "string option \<Rightarrow> string option \<Rightarrow> ModuleManager \<Rightarrow> string \<Rightarrow> nat \<Rightarrow> ModuleManager" where
  "recovery_callback onInitialize onStart mgr moduleName attempt =
     (case getModule mgr moduleName of
        None \<Rightarrow> mgr
      | Some mdl \<Rightarrow>
          if \<not> hasError mdl then mgr
          else snd (recovery_run onInitialize onStart
                      (mgr\<lparr>journal := journal mgr @ [Attempting moduleName attempt]\<rparr>)
                      moduleName mdl))"

text \<open>The oldest pending timer fires.\<close>

definition fire_timer :: "string option \<Rightarrow> string option \<Rightarrow> ModuleManager \<Rightarrow> ModuleManager" where
  "fire_timer onInitialize onStart mgr =
     (case timers mgr of
        [] \<Rightarrow> mgr
      | (moduleName, attempt) # rest \<Rightarrow>
          recovery_callback onInitialize onStart (mgr\<lparr>timers := rest\<rparr>) moduleName attempt)"

text \<open>
  The public \<^verbatim>\<open>recoverModule(moduleName)\<close>: the same run, not counted as an attempt;
  it returns whether the module was recovered.
\<close>

definition recoverModule ::
  "string option \<Rightarrow> string option \<Rightarrow> ModuleManager \<Rightarrow> string \<Rightarrow> bool \<times> ModuleManager" where
  "recoverModule onInitialize onStart mgr moduleName =
     (case getModule mgr moduleName of
        None \<Rightarrow> (False, mgr)
      | Some mdl \<Rightarrow>
          if \<not> hasError mdl then (False, mgr)
          else recovery_run onInitialize onStart mgr moduleName mdl)"

text \<open>
  What can happen to a manager, as far as the supervisor is concerned: a
  \<^verbatim>\<open>moduleError\<close> is emitted on it (the passes do so in their \<^verbatim>\<open>catch\<close> blocks); a
  registered module runs \<^verbatim>\<open>handleError\<close>, so that its \<^verbatim>\<open>error\<close> event reaches the
  manager's listener; the oldest timer fires; \<^verbatim>\<open>recoverModule\<close> is called. The hook
  outcomes are part of the event.
\<close>

datatype ManagerEvent =
    EmitModuleError string string
  | ModuleHandlesError string string string
  | TimerFires "string option" "string option"
  | RecoverModule string "string option" "string option"

fun manager_step :: "ModuleManager \<Rightarrow> ManagerEvent \<Rightarrow> ModuleManager" where
  "manager_step mgr (EmitModuleError moduleName operation) =
     on_moduleError mgr moduleName operation"
| "manager_step mgr (ModuleHandlesError moduleName operation err) =
     (case getModule mgr moduleName of
        None \<Rightarrow> mgr
      | Some mdl \<Rightarrow>
          (case handleError operation err mdl of
             (m', es) \<Rightarrow> deliver (put_module mgr m') moduleName es))"
| "manager_step mgr (TimerFires onInitialize onStart) = fire_timer onInitialize onStart mgr"
| "manager_step mgr (RecoverModule moduleName onInitialize onStart) =
     snd (recoverModule onInitialize onStart mgr moduleName)"

definition manager_run :: "ModuleManager \<Rightarrow> ManagerEvent list \<Rightarrow> ModuleManager" where
  "manager_run mgr events = foldl manager_step mgr events"

section \<open>Manager: the initialize, start and stop passes\<close>

text \<open>
  The hooks of the concrete modules are given by their outcomes, per module name; a
  pass records the lifecycle calls it makes, in order.
\<close>

datatype Hook = OnInitialize | OnStart | OnStop

datatype PassCall = CallInitialize string | CallStart string | CallStop string

text \<open>
  The loop of \<^verbatim>\<open>initializeModules\<close> over the sorted modules:

  \<^verbatim>\<open>
  for (const module of sortedModules) {
    try {
      const currentState = module.getState();
      if (currentState === ModuleState.INITIALIZED) { initializedCount++; continue; }
      ...
      await module.initialize();
      ...
      initializedCount++;
    } catch (error) {
      errorCount++;
      this.emit("moduleError", error, module.name, "initialization");
      ...
    }
  }
  \<close>
\<close>

fun initialize_pass ::
  "(string \<Rightarrow> Hook \<Rightarrow> string option) \<Rightarrow> string list \<Rightarrow> ModuleManager \<times> PassCall list \<Rightarrow>
   ModuleManager \<times> PassCall list" where
  "initialize_pass hooks [] acc = acc"
| "initialize_pass hooks (n # ns) (mgr, calls) =
     (case getModule mgr n of
        None \<Rightarrow> initialize_pass hooks ns (mgr, calls)
      | Some mdl \<Rightarrow>
          if state mdl = INITIALIZED then initialize_pass hooks ns (mgr, calls)
          else
            (case initialize (hooks n OnInitialize) mdl of
               (r, m', es) \<Rightarrow>
                 (let mgr1 = deliver (put_module mgr m') n es;
                      mgr2 = (case r of
                                None \<Rightarrow> mgr1
                              | Some err \<Rightarrow> on_moduleError mgr1 n ''initialization'')
                  in initialize_pass hooks ns (mgr2, calls @ [CallInitialize n]))))"

text \<open>
  The loop of \<^verbatim>\<open>startModules\<close>:

  \<^verbatim>\<open>
  for (const module of sortedModules) {
    try {
      const currentState = module.getState();
      if (currentState === ModuleState.RUNNING) { startedCount++; continue; }
      if (currentState !== ModuleState.INITIALIZED && currentState !== ModuleState.STOPPED) {
        this.logger.warn(...); continue;
      }
      ...
      await module.start();
      ...
      if (module.getState() !== ModuleState.RUNNING) {
        throw new Error(`Module ${module.name} failed to start properly`);
      }
      startedCount++;
    } catch (error) {
      errorCount++;
      this.emit("moduleError", error, module.name, "start");
      ...
    }
  }
  \<close>
\<close>

fun start_pass ::
  "(string \<Rightarrow> Hook \<Rightarrow> string option) \<Rightarrow> string list \<Rightarrow> ModuleManager \<times> PassCall list \<Rightarrow>
   ModuleManager \<times> PassCall list" where
  "start_pass hooks [] acc = acc"
| "start_pass hooks (n # ns) (mgr, calls) =
     (case getModule mgr n of
        None \<Rightarrow> start_pass hooks ns (mgr, calls)
      | Some mdl \<Rightarrow>
          if state mdl = RUNNING then start_pass hooks ns (mgr, calls)
          else if state mdl \<noteq> INITIALIZED \<and> state mdl \<noteq> STOPPED then
            start_pass hooks ns (mgr, calls)
          else
            (case start (hooks n OnStart) mdl of
               (r, m', es) \<Rightarrow>
                 (let mgr1 = deliver (put_module mgr m') n es;
                      mgr2 = (if r \<noteq> None \<or> state m' \<noteq> RUNNING
                              then on_moduleError mgr1 n ''start'' else mgr1)
                  in start_pass hooks ns (mgr2, calls @ [CallStart n]))))"

text \<open>
  The loop of \<^verbatim>\<open>stopModules\<close>, over the reversed order:

  \<^verbatim>\<open>
  for (const module of sortedModules) {
    try {
      const currentState = module.getState();
      if (currentState !== ModuleState.RUNNING) { ...; continue; }
      ...
      await module.stop();
      ...
      stoppedCount++;
    } catch (error) {
      errorCount++;
      this.emit("moduleError", error, module.name, "stop");
      ...
    }
  }
  \<close>
\<close>

fun stop_pass ::
  "(string \<Rightarrow> Hook \<Rightarrow> string option) \<Rightarrow> string list \<Rightarrow> ModuleManager \<times> PassCall list \<Rightarrow>
   ModuleManager \<times> PassCall list" where
  "stop_pass hooks [] acc = acc"
| "stop_pass hooks (n # ns) (mgr, calls) =
     (case getModule mgr n of
        None \<Rightarrow> stop_pass hooks ns (mgr, calls)
      | Some mdl \<Rightarrow>
          if state mdl \<noteq> RUNNING then stop_pass hooks ns (mgr, calls)
          else
            (case stop (hooks n OnStop) mdl of
               (r, m', es) \<Rightarrow>
                 (let mgr1 = deliver (put_module mgr m') n es;
                      mgr2 = (case r of
                                None \<Rightarrow> mgr1
                              | Some err \<Rightarrow> on_moduleError mgr1 n ''stop'')
                  in stop_pass hooks ns (mgr2, calls @ [CallStop n]))))"

text \<open>
  The three public passes. Each result is the error thrown to the caller (\<open>None\<close>: the
  call returns normally), the manager afterwards and the lifecycle calls made.
  \<^verbatim>\<open>sortModulesByDependencies\<close> is called outside every \<^verbatim>\<open>try\<close>, so its error leaves the
  pass at once.

  \<^verbatim>\<open>
  public async startModules(): Promise<void> {
    if (!this.initialized) { throw new Error("ModuleManager must be initialized ..."); }
    const sortedModules = this.sortModulesByDependencies();
    for (const module of sortedModules) { ... }
    this.emit("ready", this.getModuleStatus());
  }
  \<close>
\<close>

definition startModules ::
  "(string \<Rightarrow> Hook \<Rightarrow> string option) \<Rightarrow> ModuleManager \<Rightarrow>
   ManagerError option \<times> ModuleManager \<times> PassCall list" where
  "startModules hooks mgr =
     (if \<not> initialized mgr then (Some NotInitialized, mgr, [])
      else
        (case sortModulesByDependencies (modules mgr) of
           Inl e \<Rightarrow> (Some e, mgr, [])
         | Inr sortedModules \<Rightarrow>
             (case start_pass hooks (map name sortedModules) (mgr, []) of
                (mgr1, calls) \<Rightarrow> (None, mgr1, calls))))"

text \<open>
  \<^verbatim>\<open>
  public async initializeModules(): Promise<void> {
    if (this.initialized) { this.logger.warn(...); return; }
    const sortedModules = this.sortModulesByDependencies();
    for (const module of sortedModules) { ... }
    this.initialized = true;
    ...
    if (this.autoStart) { await this.startModules(); }
  }
  \<close>
\<close>

definition initializeModules ::
  "(string \<Rightarrow> Hook \<Rightarrow> string option) \<Rightarrow> ModuleManager \<Rightarrow>
   ManagerError option \<times> ModuleManager \<times> PassCall list" where
  "initializeModules hooks mgr =
     (if initialized mgr then (None, mgr, [])
      else
        (case sortModulesByDependencies (modules mgr) of
           Inl e \<Rightarrow> (Some e, mgr, [])
         | Inr sortedModules \<Rightarrow>
             (case initialize_pass hooks (map name sortedModules) (mgr, []) of
                (mgr1, calls1) \<Rightarrow>
                  (let mgr2 = mgr1\<lparr>initialized := True\<rparr>
                   in if manager_autoStart mgr2 then
                        (case startModules hooks mgr2 of
                           (r, mgr3, calls3) \<Rightarrow> (r, mgr3, calls1 @ calls3))
                      else (None, mgr2, calls1)))))"

text \<open>
  \<^verbatim>\<open>
  public async stopModules(): Promise<void> {
    ...
    const sortedModules = this.sortModulesByDependencies().reverse();
    for (const module of sortedModules) { ... }
    this.initialized = false;
  }
  \<close>
\<close>

definition stopModules ::
  "(string \<Rightarrow> Hook \<Rightarrow> string option) \<Rightarrow> ModuleManager \<Rightarrow>
   ManagerError option \<times> ModuleManager \<times> PassCall list" where
  "stopModules hooks mgr =
     (case sortModulesByDependencies (modules mgr) of
        Inl e \<Rightarrow> (Some e, mgr, [])
      | Inr sortedModules \<Rightarrow>
          (case stop_pass hooks (rev (map name sortedModules)) (mgr, []) of
             (mgr1, calls) \<Rightarrow> (None, mgr1\<lparr>initialized := False\<rparr>, calls)))"


text \<open>
  The supervisor's journal, read back: the number of timers set for a module, and the
  number of timers set for it since its counter was last deleted.
\<close>

definition is_scheduled :: "string \<Rightarrow> Action \<Rightarrow> bool" where
  "is_scheduled n a = (case a of Scheduled x k \<Rightarrow> x = n | _ \<Rightarrow> False)"

definition scheduled_count :: "string \<Rightarrow> Action list \<Rightarrow> nat" where
  "scheduled_count n acts = length (filter (is_scheduled n) acts)"

definition attempts_since :: "string \<Rightarrow> Action list \<Rightarrow> nat" where
  "attempts_since n acts =
     foldl (\<lambda>c a. if a = Recovered n then 0 else if is_scheduled n a then c + 1 else c) 0 acts"

definition attempts_of :: "ModuleManager \<Rightarrow> string \<Rightarrow> nat" where
  "attempts_of mgr n = (case recoveryAttempts mgr n of None \<Rightarrow> 0 | Some a \<Rightarrow> a)"


definition cycle_registry :: "Module list" where
  "cycle_registry = [new_module ''A'' [''B''], new_module ''B'' [''A'']]"

definition all_succeed :: "string \<Rightarrow> Hook \<Rightarrow> string option" where
  "all_succeed n h = None"

text \<open>
  Two managers agree on what the ordering depends on: the names and the dependencies
  of the registered modules, in registry order, and the \<^verbatim>\<open>initialized\<close> flag.
\<close>

definition same_shape :: "ModuleManager \<Rightarrow> ModuleManager \<Rightarrow> bool" where
  "same_shape mgr' mgr =
     (map name (modules mgr') = map name (modules mgr)
      \<and> map dependencies (modules mgr') = map dependencies (modules mgr)
      \<and> initialized mgr' = initialized mgr)"

text \<open>Registering a list of modules one after the other; a refused module is left out.\<close>

fun register_all :: "ModuleManager \<Rightarrow> Module list \<Rightarrow> ModuleManager" where
  "register_all mgr [] = mgr"
| "register_all mgr (m # ms) =
     (case registerModule mgr m of
        Inl e \<Rightarrow> register_all mgr ms
      | Inr (mgr', m') \<Rightarrow> register_all mgr' ms)"


definition cycle_manager :: ModuleManager where
  "cycle_manager = register_all (new_manager True default_recovery) cycle_registry"

text \<open>
  The recovery runs the supervisor performs are the \<open>Attempting\<close> entries of the journal
  (the timer's callback got past its \<^verbatim>\<open>hasError\<close> test).
\<close>

definition is_attempting :: "string \<Rightarrow> Action \<Rightarrow> bool" where
  "is_attempting n a = (case a of Attempting x k \<Rightarrow> x = n | _ \<Rightarrow> False)"

definition attempting_count :: "string \<Rightarrow> Action list \<Rightarrow> nat" where
  "attempting_count n acts = length (filter (is_attempting n) acts)"

text \<open>
  The counter of every module is the number of recoveries scheduled for it since its last
  successful recovery, and that number never exceeded \<^verbatim>\<open>maxAttempts\<close>.
\<close>

definition counters_agree :: "Action list \<Rightarrow> (string \<rightharpoonup> nat) \<Rightarrow> nat \<Rightarrow> bool" where
  "counters_agree acts counters limit =
     (\<forall>n. (case counters n of None \<Rightarrow> 0 | Some a \<Rightarrow> a) = attempts_since n acts
          \<and> (\<forall>k. attempts_since n (take k acts) \<le> limit))"

definition supervisor_inv :: "ModuleManager \<Rightarrow> bool" where
  "supervisor_inv mgr =
     counters_agree (journal mgr) (recoveryAttempts mgr) (maxAttempts (recoveryOptions mgr))"

text \<open>Nothing is pending and nothing was ever scheduled.\<close>

definition idle :: "ModuleManager \<Rightarrow> bool" where
  "idle mgr = (timers mgr = [] \<and> (\<forall>a \<in> set (journal mgr). \<forall>n. \<not> is_scheduled n a))"

text \<open>
  A manager with recovery enabled and two attempts allowed, supervising one module, and a
  history in which a timer scheduled before a successful recovery runs after it: the
  module fails in \<^verbatim>\<open>start\<close>, a start pass finds it not running, the first timer recovers
  it, it fails in \<^verbatim>\<open>stop\<close>, a start pass finds it not running again, and the three
  remaining timers fire while \<^verbatim>\<open>onInitialize\<close> fails.
\<close>

definition supervised_manager :: ModuleManager where
  "supervised_manager =
     register_all (new_manager False \<lparr> enabled = True, maxAttempts = 2, delayMs = 5000 \<rparr>)
       [new_module ''X'' []]"

definition stale_timer_history :: "ManagerEvent list" where
  "stale_timer_history =
     [ModuleHandlesError ''X'' ''start'' ''start failed'',
      EmitModuleError ''X'' ''start'',
      TimerFires None None,
      ModuleHandlesError ''X'' ''stop'' ''stop failed'',
      EmitModuleError ''X'' ''start'',
      TimerFires (Some ''initialize failed'') None,
      TimerFires (Some ''initialize failed'') None,
      TimerFires (Some ''initialize failed'') None]"

text \<open>
  A manager on which \<^verbatim>\<open>initializeModules\<close> ran while the registry was empty, and on which
  the two modules of the cycle scenario were registered afterwards.
\<close>

definition initialized_cycle_manager :: ModuleManager where
  "initialized_cycle_manager =
     register_all (fst (snd (initializeModules all_succeed (new_manager False default_recovery))))
       cycle_registry"

subsection \<open>Properties of the comparison\<close>

lemma compare_from_part_at:
  "compare_from xs ys i =
     (if i < max (length xs) (length ys) then
        (if js_gt (part_at xs i) (part_at ys i) then 1
         else if js_lt (part_at xs i) (part_at ys i) then - 1
         else compare_from xs ys (Suc i))
      else 0)"
  by (subst compare_from.simps) (simp add: part_at_def Let_def)

lemma js_gt_lt_swap: "js_gt a b = js_lt b a"
  by (cases a; cases b) auto

lemma compare_from_swap: "compare_from xs ys i = - compare_from ys xs i"
proof (induction xs ys i rule: compare_from.induct)
  case (1 xs ys i)
  show ?case
  proof (cases "i < max (length xs) (length ys)")
    case True
    then have T': "i < max (length ys) (length xs)" by (simp add: max.commute)
    show ?thesis
    proof (cases "js_gt (part_at xs i) (part_at ys i)")
      case gt: True
      then have "js_lt (part_at ys i) (part_at xs i)" by (simp add: js_gt_lt_swap)
      moreover from this have "\<not> js_gt (part_at ys i) (part_at xs i)"
        by (cases "part_at xs i"; cases "part_at ys i") auto
      ultimately show ?thesis using True T' gt
        by (subst compare_from_part_at, subst (2) compare_from_part_at) simp
    next
      case ngt: False
      show ?thesis
      proof (cases "js_lt (part_at xs i) (part_at ys i)")
        case lt: True
        then have "js_gt (part_at ys i) (part_at xs i)" by (simp add: js_gt_lt_swap)
        then show ?thesis using True T' ngt lt
          by (subst compare_from_part_at, subst (2) compare_from_part_at) simp
      next
        case nlt: False
        have a: "\<not> js_gt (part_at ys i) (part_at xs i)" using nlt by (simp add: js_gt_lt_swap)
        have b: "\<not> js_lt (part_at ys i) (part_at xs i)" using ngt by (simp add: js_gt_lt_swap)
        have "compare_from xs ys (Suc i) = - compare_from ys xs (Suc i)"
          using "1.IH" True ngt nlt by (simp add: part_at_def)
        then show ?thesis using True T' ngt nlt a b
          by (subst compare_from_part_at, subst (2) compare_from_part_at) simp
      qed
    qed
  next
    case False
    then have "\<not> i < max (length ys) (length xs)" by (simp add: max.commute)
    with False show ?thesis
      by (subst compare_from_part_at, subst (2) compare_from_part_at) simp
  qed
qed

lemma part_at_num: "all_num xs \<Longrightarrow> part_at xs i \<noteq> NaN"
  by (auto simp: all_num_def part_at_def list_all_length)

lemma js_trichotomy:
  "a \<noteq> NaN \<Longrightarrow> b \<noteq> NaN \<Longrightarrow> \<not> js_gt a b \<Longrightarrow> \<not> js_lt a b \<Longrightarrow> a = b"
  by (cases a; cases b) auto

lemma js_gt_neq: "js_gt a b \<Longrightarrow> a \<noteq> b"
  by (cases a; cases b) auto

lemma js_lt_neq: "js_lt a b \<Longrightarrow> a \<noteq> b"
  by (cases a; cases b) auto

lemma js_lt_not_gt: "js_lt a b \<Longrightarrow> \<not> js_gt a b"
  by (cases a; cases b) auto

lemma js_lt_trans: "js_lt a b \<Longrightarrow> js_lt b c \<Longrightarrow> js_lt a c"
  by (cases a; cases b; cases c) auto

lemma from_split: "(\<forall>j\<ge>i. P j) \<longleftrightarrow> P i \<and> (\<forall>j\<ge>Suc i. P (j::nat))"
  by (metis Suc_leD le_antisym not_less_eq_eq order_refl)

lemma compare_from_range: "compare_from xs ys i \<in> {- 1, 0, 1}"
proof (induction xs ys i rule: compare_from.induct)
  case (1 xs ys i)
  show ?case
  proof (cases "i < max (length xs) (length ys) \<and> \<not> js_gt (part_at xs i) (part_at ys i)
        \<and> \<not> js_lt (part_at xs i) (part_at ys i)")
    case True
    then have "compare_from xs ys (Suc i) \<in> {- 1, 0, 1}"
      using "1.IH" by (simp add: part_at_def)
    then show ?thesis using True by (subst compare_from_part_at) simp
  next
    case False
    then show ?thesis by (subst compare_from_part_at) auto
  qed
qed

lemma compare_from_zero_iff:
  "all_num xs \<Longrightarrow> all_num ys \<Longrightarrow>
   compare_from xs ys i = 0 \<longleftrightarrow> (\<forall>j\<ge>i. part_at xs j = part_at ys j)"
proof (induction xs ys i rule: compare_from.induct)
  case (1 xs ys i)
  note nx = part_at_num [OF "1.prems"(1), of i] and ny = part_at_num [OF "1.prems"(2), of i]
  show ?case
  proof (cases "i < max (length xs) (length ys)")
    case inb: True
    show ?thesis
    proof (cases "js_gt (part_at xs i) (part_at ys i) \<or> js_lt (part_at xs i) (part_at ys i)")
      case True
      then have "part_at xs i \<noteq> part_at ys i" using js_gt_neq js_lt_neq by blast
      then have "\<not> (\<forall>j\<ge>i. part_at xs j = part_at ys j)" by auto
      moreover have "compare_from xs ys i \<noteq> 0"
        using True inb by (subst compare_from_part_at) auto
      ultimately show ?thesis by simp
    next
      case False
      then have eq: "part_at xs i = part_at ys i" using js_trichotomy nx ny by blast
      have "compare_from xs ys (Suc i) = 0 \<longleftrightarrow> (\<forall>j\<ge>Suc i. part_at xs j = part_at ys j)"
        using "1.IH" inb False "1.prems" by (simp add: part_at_def)
      moreover have "compare_from xs ys i = compare_from xs ys (Suc i)"
        using False inb by (subst compare_from_part_at) simp
      ultimately show ?thesis using eq
        by (subst from_split [of i]) simp
    qed
  next
    case False
    then have "\<forall>j\<ge>i. part_at xs j = part_at ys j" by (auto simp: part_at_def)
    moreover have "compare_from xs ys i = 0" using False by (subst compare_from_part_at) simp
    ultimately show ?thesis by simp
  qed
qed

lemma compare_from_neg_iff:
  "all_num xs \<Longrightarrow> all_num ys \<Longrightarrow>
   compare_from xs ys i = - 1 \<longleftrightarrow>
     (\<exists>j\<ge>i. js_lt (part_at xs j) (part_at ys j) \<and>
        (\<forall>k. i \<le> k \<and> k < j \<longrightarrow> part_at xs k = part_at ys k))"
proof (induction xs ys i rule: compare_from.induct)
  case (1 xs ys i)
  note nx = part_at_num [OF "1.prems"(1), of i] and ny = part_at_num [OF "1.prems"(2), of i]
  let ?R = "\<lambda>i. \<exists>j\<ge>i. js_lt (part_at xs j) (part_at ys j) \<and>
        (\<forall>k. i \<le> k \<and> k < j \<longrightarrow> part_at xs k = part_at ys k)"
  show ?case
  proof (cases "i < max (length xs) (length ys)")
    case inb: True
    show ?thesis
    proof (cases "js_gt (part_at xs i) (part_at ys i)")
      case gt: True
      have "compare_from xs ys i = 1" using gt inb by (subst compare_from_part_at) simp
      moreover have "\<not> ?R i"
      proof
        assume "?R i"
        then obtain j where j: "j \<ge> i" "js_lt (part_at xs j) (part_at ys j)"
          "\<forall>k. i \<le> k \<and> k < j \<longrightarrow> part_at xs k = part_at ys k" by blast
        show False
        proof (cases "j = i")
          case True
          then show False using j(2) gt js_lt_not_gt by blast
        next
          case False
          then have "part_at xs i = part_at ys i" using j(1,3) by auto
          then show False using gt js_gt_neq by blast
        qed
      qed
      ultimately show ?thesis by simp
    next
      case ngt: False
      show ?thesis
      proof (cases "js_lt (part_at xs i) (part_at ys i)")
        case lt: True
        have "compare_from xs ys i = - 1" using ngt lt inb by (subst compare_from_part_at) simp
        moreover have "?R i" using lt by (intro exI [of _ i]) auto
        ultimately show ?thesis by simp
      next
        case nlt: False
        have eq: "part_at xs i = part_at ys i" using js_trichotomy nx ny ngt nlt by blast
        have IH: "compare_from xs ys (Suc i) = - 1 \<longleftrightarrow> ?R (Suc i)"
          using "1.IH" inb ngt nlt "1.prems" by (simp add: part_at_def)
        have step: "compare_from xs ys i = compare_from xs ys (Suc i)"
          using ngt nlt inb by (subst compare_from_part_at) simp
        have "?R i \<longleftrightarrow> ?R (Suc i)"
        proof
          assume "?R i"
          then obtain j where j: "j \<ge> i" "js_lt (part_at xs j) (part_at ys j)"
            "\<forall>k. i \<le> k \<and> k < j \<longrightarrow> part_at xs k = part_at ys k" by blast
          have "j \<noteq> i" using j(2) nlt by auto
          then have "j \<ge> Suc i" using j(1) by simp
          then show "?R (Suc i)" using j(2,3) by (intro exI [of _ j]) auto
        next
          assume "?R (Suc i)"
          then obtain j where j: "j \<ge> Suc i" "js_lt (part_at xs j) (part_at ys j)"
            "\<forall>k. Suc i \<le> k \<and> k < j \<longrightarrow> part_at xs k = part_at ys k" by blast
          have "\<forall>k. i \<le> k \<and> k < j \<longrightarrow> part_at xs k = part_at ys k"
            using j(3) eq by (metis Suc_leI le_neq_implies_less)
          then show "?R i" using j(1,2) by (intro exI [of _ j]) auto
        qed
        then show ?thesis using IH step by simp
      qed
    qed
  next
    case False
    then have z: "\<forall>j\<ge>i. part_at xs j = Num 0 \<and> part_at ys j = Num 0" by (auto simp: part_at_def)
    have "\<not> ?R i"
    proof
      assume "?R i"
      then obtain j where "j \<ge> i" "js_lt (part_at xs j) (part_at ys j)" by blast
      then show False using z by auto
    qed
    moreover have "compare_from xs ys i = 0" using False by (subst compare_from_part_at) simp
    ultimately show ?thesis by simp
  qed
qed


lemma to_double_num: "to_double n \<noteq> NaN"
  by (simp add: to_double_def Let_def)

lemma Number_numeral: "p \<noteq> [] \<Longrightarrow> list_all is_digit p \<Longrightarrow> Number p \<noteq> NaN"
  by (simp add: Number_def to_double_num)

lemma dotted_numerals_all_num:
  assumes "dotted_numerals v"
  shows "all_num (version_parts v)"
proof -
  have "Number p \<noteq> NaN" if "p \<in> set (split_dot v)" for p
  proof -
    have "p \<noteq> [] \<and> list_all is_digit p"
      using assms that unfolding dotted_numerals_def list_all_iff by blast
    then show ?thesis by (simp add: Number_numeral)
  qed
  then show ?thesis
    unfolding all_num_def version_parts_def list_all_iff by auto
qed

lemma part_at_pad_zero:
  "length xs \<le> n \<Longrightarrow> part_at xs j = (if j < n then pad_zero n xs ! j else Num 0)"
  by (auto simp: part_at_def pad_zero_def nth_append)

lemma length_pad_zero: "length xs \<le> n \<Longrightarrow> length (pad_zero n xs) = n"
  by (simp add: pad_zero_def)

lemma parts_equal_iff_padded:
  assumes "n = max (length xs) (length ys)"
  shows "(\<forall>j\<ge>0. part_at xs j = part_at ys j) \<longleftrightarrow> pad_zero n xs = pad_zero n ys"
proof -
  have lx: "length xs \<le> n" and ly: "length ys \<le> n" using assms by simp_all
  show ?thesis
  proof
    assume eq: "\<forall>j\<ge>0. part_at xs j = part_at ys j"
    show "pad_zero n xs = pad_zero n ys"
    proof (rule nth_equalityI)
      show "length (pad_zero n xs) = length (pad_zero n ys)"
        using lx ly by (simp add: length_pad_zero)
    next
      fix j assume "j < length (pad_zero n xs)"
      then have "j < n" using lx by (simp add: length_pad_zero)
      then show "pad_zero n xs ! j = pad_zero n ys ! j"
        using eq part_at_pad_zero [OF lx, of j] part_at_pad_zero [OF ly, of j] by simp
    qed
  next
    assume "pad_zero n xs = pad_zero n ys"
    then show "\<forall>j\<ge>0. part_at xs j = part_at ys j"
      using part_at_pad_zero [OF lx] part_at_pad_zero [OF ly] by simp
  qed
qed

lemma compare_from_determined:
  assumes "all_num xs" "all_num ys" "all_num xs'" "all_num ys'"
    and "\<forall>j. part_at xs j = part_at xs' j" and "\<forall>j. part_at ys j = part_at ys' j"
  shows "compare_from xs ys 0 = compare_from xs' ys' 0"
proof -
  have z: "compare_from xs ys 0 = 0 \<longleftrightarrow> compare_from xs' ys' 0 = 0"
    using assms(5,6) compare_from_zero_iff [OF assms(1,2), of 0]
      compare_from_zero_iff [OF assms(3,4), of 0] by simp
  have n: "compare_from xs ys 0 = - 1 \<longleftrightarrow> compare_from xs' ys' 0 = - 1"
    using assms(5,6) compare_from_neg_iff [OF assms(1,2), of 0]
      compare_from_neg_iff [OF assms(3,4), of 0] by simp
  show ?thesis
    using z n compare_from_range [of xs ys 0] compare_from_range [of xs' ys' 0] by auto
qed

lemma compare_from_neg_trans:
  assumes "all_num xs" "all_num ys" "all_num zs"
    and "compare_from xs ys 0 = - 1" and "compare_from ys zs 0 = - 1"
  shows "compare_from xs zs 0 = - 1"
proof -
  obtain j1 where j1: "js_lt (part_at xs j1) (part_at ys j1)"
      "\<forall>k. k < j1 \<longrightarrow> part_at xs k = part_at ys k"
    using assms(4) compare_from_neg_iff [OF assms(1,2), of 0] by auto
  obtain j2 where j2: "js_lt (part_at ys j2) (part_at zs j2)"
      "\<forall>k. k < j2 \<longrightarrow> part_at ys k = part_at zs k"
    using assms(5) compare_from_neg_iff [OF assms(2,3), of 0] by auto
  have "\<exists>j. js_lt (part_at xs j) (part_at zs j) \<and> (\<forall>k. k < j \<longrightarrow> part_at xs k = part_at zs k)"
  proof (cases j1 j2 rule: linorder_cases)
    case less
    then have "js_lt (part_at xs j1) (part_at zs j1)" using j1(1) j2(2) by simp
    moreover have "\<forall>k. k < j1 \<longrightarrow> part_at xs k = part_at zs k" using less j1(2) j2(2) by simp
    ultimately show ?thesis by blast
  next
    case equal
    then have "js_lt (part_at xs j1) (part_at zs j1)" using j1(1) j2(1) js_lt_trans by blast
    moreover have "\<forall>k. k < j1 \<longrightarrow> part_at xs k = part_at zs k" using equal j1(2) j2(2) by simp
    ultimately show ?thesis by blast
  next
    case greater
    then have "js_lt (part_at xs j2) (part_at zs j2)" using j1(2) j2(1) by simp
    moreover have "\<forall>k. k < j2 \<longrightarrow> part_at xs k = part_at zs k" using greater j1(2) j2(2) by simp
    ultimately show ?thesis by blast
  qed
  then show ?thesis using compare_from_neg_iff [OF assms(1,3), of 0] by auto
qed

lemma compare_from_le_trans:
  assumes "all_num xs" "all_num ys" "all_num zs"
    and "compare_from xs ys 0 \<le> 0" and "compare_from ys zs 0 \<le> 0"
  shows "compare_from xs zs 0 \<le> 0"
proof -
  consider "compare_from xs ys 0 = 0" | "compare_from ys zs 0 = 0"
    | "compare_from xs ys 0 = - 1" "compare_from ys zs 0 = - 1"
    using assms(4,5) compare_from_range [of xs ys 0] compare_from_range [of ys zs 0] by auto
  then show ?thesis
  proof cases
    case 1
    then have "\<forall>j. part_at xs j = part_at ys j"
      using compare_from_zero_iff [OF assms(1,2), of 0] by simp
    then have "compare_from xs zs 0 = compare_from ys zs 0"
      using assms(1-3) by (intro compare_from_determined) simp_all
    then show ?thesis using assms(5) by simp
  next
    case 2
    then have "\<forall>j. part_at ys j = part_at zs j"
      using compare_from_zero_iff [OF assms(2,3), of 0] by simp
    then have "compare_from xs ys 0 = compare_from xs zs 0"
      using assms(1-3) by (intro compare_from_determined) simp_all
    then show ?thesis using assms(4) by simp
  next
    case 3
    then show ?thesis using compare_from_neg_trans [OF assms(1-3)] by simp
  qed
qed



lemmas version_eval = compareVersions_def version_parts_def Number_def is_digit_def
  decimal_value_def digit_value_def to_double_def Let_def compare_from.simps bit_count.simps
  dotted_numerals_def zero_enat_def

text \<open>
  A component is compared as a double. A numeral below \<open>2 ^ 53\<close> is converted to its
  own value; above, two numerals that round to the same double are equal components:
  \<^verbatim>\<open>9007199254740993\<close> is converted to \<open>9007199254740992\<close>.
\<close>

lemma Number_exact:
  "p \<noteq> [] \<Longrightarrow> list_all is_digit p \<Longrightarrow> decimal_value p < 2 ^ 53 \<Longrightarrow>
   Number p = Num (enat (decimal_value p))"
  by (simp add: Number_def to_double_def)

lemma Number_rounds_above_2_53:
  "Number ''9007199254740993'' = Num (enat 9007199254740992)"
  by (simp add: version_eval)

lemma version_parts_exact:
  assumes "dotted_numerals v" and "exact_components v"
  shows "version_parts v = map (\<lambda>c. Num (enat c)) (components v)"
proof -
  have "Number p = Num (enat (decimal_value p))" if "p \<in> set (split_dot v)" for p
  proof -
    have "p \<noteq> [] \<and> list_all is_digit p"
      using assms(1) that unfolding dotted_numerals_def list_all_iff by blast
    moreover have "decimal_value p < 2 ^ 53"
      using assms(2) that unfolding exact_components_def components_def list_all_iff by simp
    ultimately show ?thesis by (simp add: Number_exact)
  qed
  then show ?thesis by (simp add: version_parts_def components_def)
qed

lemma pad_zero_exact:
  "pad_zero n (map (\<lambda>c. Num (enat c)) cs) = map (\<lambda>c. Num (enat c)) (pad_components n cs)"
  by (simp add: pad_zero_def pad_components_def zero_enat_def)

lemma exact_lists_equal_iff:
  "map (\<lambda>c. Num (enat c)) xs = map (\<lambda>c. Num (enat c)) ys \<longleftrightarrow> xs = ys"
  by (rule inj_map_eq_map) (simp add: inj_def)

lemma length_version_parts: "length (version_parts v) = length (components v)"
  by (simp add: version_parts_def components_def)

text \<open>
  Claim C6, as amended. For version strings \<open>a\<close>, \<open>b\<close>, \<open>c\<close> that are dot-separated
  decimal numerals: \<open>compareVersions a b = - compareVersions b a\<close>; when every component
  of \<open>a\<close> and of \<open>b\<close> is below \<open>2 ^ 53\<close>, the result is 0 exactly when the two lists of
  components, the shorter one padded with zeros to the length of the longer, are equal
  component by component; in general the result is 0 exactly when the padded lists of
  the components converted to doubles are equal; the induced order is transitive (in its
  non-strict and in its strict form); and the four literal comparisons of the
  version-comparison scenario give 0, 1, 0 and -1.
\<close>

theorem compareVersions_order:
  assumes "dotted_numerals a" and "dotted_numerals b" and "dotted_numerals c"
  shows "compareVersions a b = - compareVersions b a
    \<and> (exact_components a \<and> exact_components b \<longrightarrow>
         (compareVersions a b = 0 \<longleftrightarrow>
            pad_components (max (length (components a)) (length (components b))) (components a)
            = pad_components (max (length (components a)) (length (components b))) (components b)))
    \<and> (compareVersions a b = 0 \<longleftrightarrow>
         pad_zero (max (length (version_parts a)) (length (version_parts b))) (version_parts a)
         = pad_zero (max (length (version_parts a)) (length (version_parts b))) (version_parts b))
    \<and> (compareVersions a b \<le> 0 \<and> compareVersions b c \<le> 0 \<longrightarrow> compareVersions a c \<le> 0)
    \<and> (compareVersions a b < 0 \<and> compareVersions b c < 0 \<longrightarrow> compareVersions a c < 0)
    \<and> compareVersions ''1.2'' ''1.2.0'' = 0
    \<and> compareVersions ''1.10.0'' ''1.9.9'' = 1
    \<and> compareVersions ''0.0.3'' ''0.0.3'' = 0
    \<and> compareVersions ''2.0'' ''10.0'' = - 1"
proof -
  let ?A = "version_parts a" and ?B = "version_parts b" and ?C = "version_parts c"
  let ?n = "max (length (components a)) (length (components b))"
  have na: "all_num ?A" and nb: "all_num ?B" and nc: "all_num ?C"
    using assms by (simp_all add: dotted_numerals_all_num)
  have swap: "compareVersions a b = - compareVersions b a"
    unfolding compareVersions_def by (rule compare_from_swap)
  have "compareVersions a b = 0 \<longleftrightarrow> (\<forall>j\<ge>0. part_at ?A j = part_at ?B j)"
    unfolding compareVersions_def by (rule compare_from_zero_iff [OF na nb])
  then have zero: "compareVersions a b = 0 \<longleftrightarrow>
      pad_zero (max (length ?A) (length ?B)) ?A = pad_zero (max (length ?A) (length ?B)) ?B"
    using parts_equal_iff_padded [of "max (length ?A) (length ?B)" ?A ?B] by simp
  have exact: "compareVersions a b = 0 \<longleftrightarrow>
      pad_components ?n (components a) = pad_components ?n (components b)"
    if "exact_components a \<and> exact_components b"
  proof -
    have A: "?A = map (\<lambda>c. Num (enat c)) (components a)"
      using assms(1) that by (simp add: version_parts_exact)
    have B: "?B = map (\<lambda>c. Num (enat c)) (components b)"
      using assms(2) that by (simp add: version_parts_exact)
    have "compareVersions a b = 0 \<longleftrightarrow>
        pad_zero ?n (map (\<lambda>c. Num (enat c)) (components a))
        = pad_zero ?n (map (\<lambda>c. Num (enat c)) (components b))"
      using zero unfolding length_version_parts unfolding A B .
    then show ?thesis by (simp only: pad_zero_exact exact_lists_equal_iff)
  qed
  have le: "compareVersions a b \<le> 0 \<and> compareVersions b c \<le> 0 \<longrightarrow> compareVersions a c \<le> 0"
    unfolding compareVersions_def using compare_from_le_trans [OF na nb nc] by blast
  have lt: "compareVersions a b < 0 \<and> compareVersions b c < 0 \<longrightarrow> compareVersions a c < 0"
  proof
    assume h: "compareVersions a b < 0 \<and> compareVersions b c < 0"
    have "compare_from ?A ?B 0 = - 1"
      using h compare_from_range [of ?A ?B 0] unfolding compareVersions_def by auto
    moreover have "compare_from ?B ?C 0 = - 1"
      using h compare_from_range [of ?B ?C 0] unfolding compareVersions_def by auto
    ultimately have "compare_from ?A ?C 0 = - 1"
      by (rule compare_from_neg_trans [OF na nb nc])
    then show "compareVersions a c < 0" unfolding compareVersions_def by simp
  qed
  have l1: "compareVersions ''1.2'' ''1.2.0'' = 0" by (simp add: version_eval)
  have l2: "compareVersions ''1.10.0'' ''1.9.9'' = 1" by (simp add: version_eval)
  have l3: "compareVersions ''0.0.3'' ''0.0.3'' = 0" by (simp add: version_eval)
  have l4: "compareVersions ''2.0'' ''10.0'' = - 1" by (simp add: version_eval)
  show ?thesis using swap exact zero le lt l1 l2 l3 l4 by blast
qed

lemmas components_eval = components_def exact_components_def pad_components_def
  decimal_value_def digit_value_def

theorem compareVersions_order_witness:
  "dotted_numerals ''1.9.9'' \<and> dotted_numerals ''1.10'' \<and> dotted_numerals ''1.10.0.1''
   \<and> exact_components ''1.9.9'' \<and> exact_components ''1.10''
   \<and> pad_components 3 (components ''1.9.9'') = [1, 9, 9]
   \<and> pad_components 3 (components ''1.10'') = [1, 10, 0]
   \<and> compareVersions ''1.9.9'' ''1.10'' = - compareVersions ''1.10'' ''1.9.9''
   \<and> compareVersions ''1.9.9'' ''1.10'' < 0 \<and> compareVersions ''1.10'' ''1.10.0.1'' < 0
   \<and> compareVersions ''1.9.9'' ''1.10.0.1'' < 0
   \<and> compareVersions ''1.9.9'' ''1.10'' \<noteq> 0"
proof -
  have a: "dotted_numerals ''1.9.9''" by (simp add: version_eval)
  have b: "dotted_numerals ''1.10''" by (simp add: version_eval)
  have c: "dotted_numerals ''1.10.0.1''" by (simp add: version_eval)
  have ea: "exact_components ''1.9.9''" by (simp add: components_eval)
  have eb: "exact_components ''1.10''" by (simp add: components_eval)
  have ca: "components ''1.9.9'' = [1, 9, 9]" by (simp add: components_eval)
  have cb: "components ''1.10'' = [1, 10]" by (simp add: components_eval)
  have pa: "pad_components 3 (components ''1.9.9'') = [1, 9, 9]"
    unfolding ca by (simp add: pad_components_def)
  have pb: "pad_components 3 (components ''1.10'') = [1, 10, 0]"
    unfolding cb by (simp add: pad_components_def numeral_3_eq_3)
  have n: "max (length (components ''1.9.9'')) (length (components ''1.10'')) = 3"
    unfolding ca cb by simp
  have ab: "compareVersions ''1.9.9'' ''1.10'' < 0" by (simp add: version_eval)
  have bc: "compareVersions ''1.10'' ''1.10.0.1'' < 0" by (simp add: version_eval)
  note main = compareVersions_order [OF a b c]
  have s: "compareVersions ''1.9.9'' ''1.10'' = - compareVersions ''1.10'' ''1.9.9''"
    using main by blast
  have t: "compareVersions ''1.9.9'' ''1.10.0.1'' < 0" using main ab bc by blast
  have "compareVersions ''1.9.9'' ''1.10'' = 0 \<longleftrightarrow>
      pad_components 3 (components ''1.9.9'') = pad_components 3 (components ''1.10'')"
    using main ea eb unfolding n by blast
  then have z: "compareVersions ''1.9.9'' ''1.10'' \<noteq> 0" unfolding pa pb by simp
  show ?thesis using a b c ea eb pa pb s ab bc t z by simp
qed

text \<open>
  Beyond \<open>2 ^ 53\<close> the components are compared after rounding: \<^verbatim>\<open>9007199254740993\<close> and
  \<^verbatim>\<open>9007199254740992\<close> are different numerals and compare equal.
\<close>

theorem compareVersions_rounding_counterexample:
  "dotted_numerals ''9007199254740993'' \<and> dotted_numerals ''9007199254740992''
   \<and> compareVersions ''9007199254740993'' ''9007199254740992'' = 0
   \<and> components ''9007199254740993'' = [9007199254740993]
   \<and> components ''9007199254740992'' = [9007199254740992]
   \<and> pad_components 1 (components ''9007199254740993'')
       \<noteq> pad_components 1 (components ''9007199254740992'')"
proof -
  have 1: "dotted_numerals ''9007199254740993''" "dotted_numerals ''9007199254740992''"
    by (simp_all add: version_eval)
  have 2: "compareVersions ''9007199254740993'' ''9007199254740992'' = 0"
    by (simp add: version_eval)
  have 3: "components ''9007199254740993'' = [9007199254740993]"
    "components ''9007199254740992'' = [9007199254740992]"
    by (simp_all add: components_eval)
  have 4: "pad_components 1 (components ''9007199254740993'')
       \<noteq> pad_components 1 (components ''9007199254740992'')"
    unfolding 3 by (simp add: pad_components_def)
  show ?thesis using 1 2 3 4 by simp
qed

section \<open>Module lifecycle: which transitions the calls perform\<close>

lemma initialize_lawful: "initialize h m = (r, m', es) \<Longrightarrow> list_all lawful es"
  by (auto simp: initialize_def setState_def handleError_def Let_def split: if_splits option.splits)

lemma start_lawful: "start h m = (r, m', es) \<Longrightarrow> list_all lawful es"
  by (auto simp: start_def setState_def handleError_def Let_def split: if_splits option.splits)

lemma stop_lawful: "stop h m = (r, m', es) \<Longrightarrow> list_all lawful es"
  by (auto simp: stop_def setState_def handleError_def Let_def split: if_splits option.splits)

lemma restart_lawful:
  assumes "restart h1 h2 m = (r, m', es)"
  shows "list_all lawful es"
proof -
  obtain r1 m1 e1 where s1: "stop h1 m = (r1, m1, e1)" by (cases "stop h1 m") auto
  have l1: "list_all lawful e1" using s1 by (rule stop_lawful)
  show ?thesis
  proof (cases r1)
    case (Some err)
    then have "es = e1" using assms s1 by (simp add: restart_def)
    then show ?thesis using l1 by simp
  next
    case None
    obtain r2 m2 e2 where s2: "start h2 m1 = (r2, m2, e2)" by (cases "start h2 m1") auto
    have "es = e1 @ e2" using assms s1 s2 None by (simp add: restart_def)
    then show ?thesis using l1 start_lawful [OF s2] by simp
  qed
qed

lemma run_call_lawful:
  assumes "c \<noteq> Reset"
  shows "list_all lawful (snd (run_call m c))"
proof (cases c)
  case (Initialize h)
  obtain r m' es where "initialize h m = (r, m', es)" by (cases "initialize h m") auto
  then show ?thesis using Initialize initialize_lawful by fastforce
next
  case (Start h)
  obtain r m' es where "start h m = (r, m', es)" by (cases "start h m") auto
  then show ?thesis using Start start_lawful by fastforce
next
  case (Stop h)
  obtain r m' es where "stop h m = (r, m', es)" by (cases "stop h m") auto
  then show ?thesis using Stop stop_lawful by fastforce
next
  case (Restart h1 h2)
  obtain r m' es where "restart h1 h2 m = (r, m', es)" by (cases "restart h1 h2 m") auto
  then show ?thesis using Restart restart_lawful by fastforce
next
  case Reset
  then show ?thesis using assms by simp
qed

lemma reset_effects:
  "reset m = (m\<lparr>error := None, state := UNINITIALIZED\<rparr>,
     if state m = UNINITIALIZED then [] else [StateChange UNINITIALIZED (state m)])"
  by (simp add: reset_def setState_def)

lemma reset_lawful_iff:
  "list_all lawful (snd (reset m)) \<longleftrightarrow> state m = ERROR \<or> state m = UNINITIALIZED"
  by (cases "state m") (simp_all add: reset_effects)

lemma run_calls_lawful: "Reset \<notin> set cs \<Longrightarrow> list_all lawful (snd (run_calls m cs))"
proof (induction cs arbitrary: m)
  case Nil
  then show ?case by simp
next
  case (Cons c cs)
  obtain m1 e1 where c1: "run_call m c = (m1, e1)" by (cases "run_call m c") auto
  obtain m2 e2 where c2: "run_calls m1 cs = (m2, e2)" by (cases "run_calls m1 cs") auto
  have "list_all lawful e1" using run_call_lawful [of c m] Cons.prems c1 by auto
  moreover have "list_all lawful e2" using Cons.IH [of m1] Cons.prems c2 by auto
  ultimately show ?case using c1 c2 by simp
qed

lemma run_call_lawful_or_reset:
  "list_all (\<lambda>e. lawful e \<or> reset_change e) (snd (run_call m c))"
proof (cases "c = Reset")
  case True
  then show ?thesis by (simp add: reset_effects reset_change_def)
next
  case False
  then have "list_all lawful (snd (run_call m c))" by (rule run_call_lawful)
  then show ?thesis by (simp add: list_all_iff)
qed

lemma run_calls_lawful_or_reset:
  "list_all (\<lambda>e. lawful e \<or> reset_change e) (snd (run_calls m cs))"
proof (induction cs arbitrary: m)
  case Nil
  then show ?case by simp
next
  case (Cons c cs)
  obtain m1 e1 where c1: "run_call m c = (m1, e1)" by (cases "run_call m c") auto
  obtain m2 e2 where c2: "run_calls m1 cs = (m2, e2)" by (cases "run_calls m1 cs") auto
  have "list_all (\<lambda>e. lawful e \<or> reset_change e) e1"
    using run_call_lawful_or_reset [of m c] c1 by simp
  moreover have "list_all (\<lambda>e. lawful e \<or> reset_change e) e2"
    using Cons.IH [of m1] c2 by simp
  ultimately show ?case using c1 c2 by simp
qed


text \<open>
  Claim C3, as the code has it. Every state change that \<^verbatim>\<open>initialize()\<close>, \<^verbatim>\<open>start()\<close>,
  \<^verbatim>\<open>stop()\<close> and \<^verbatim>\<open>restart()\<close> perform is a legal transition, in every sequence of
  calls; in a sequence that also calls \<^verbatim>\<open>reset()\<close> the only other state changes are
  changes to \<^verbatim>\<open>UNINITIALIZED\<close>. \<^verbatim>\<open>initialize()\<close> outside \<^verbatim>\<open>UNINITIALIZED\<close>, \<^verbatim>\<open>start()\<close>
  outside \<^verbatim>\<open>INITIALIZED\<close> and \<^verbatim>\<open>STOPPED\<close>, and \<^verbatim>\<open>stop()\<close> outside \<^verbatim>\<open>RUNNING\<close> are
  refused with a warning and leave the module unchanged. \<^verbatim>\<open>reset()\<close> is never refused:
  from every state it clears the error and sets the state to \<^verbatim>\<open>UNINITIALIZED\<close>, which
  is a legal transition exactly when the state was \<^verbatim>\<open>ERROR\<close> (from \<^verbatim>\<open>UNINITIALIZED\<close> no
  state change is emitted).
\<close>

theorem lifecycle_transitions:
  "(Reset \<notin> set cs \<longrightarrow> list_all lawful (snd (run_calls m cs)))
   \<and> list_all (\<lambda>e. lawful e \<or> reset_change e) (snd (run_calls m cs))
   \<and> (state m \<noteq> UNINITIALIZED \<longrightarrow> initialize h m = (None, m, [LogWarn]))
   \<and> (state m \<noteq> INITIALIZED \<and> state m \<noteq> STOPPED \<longrightarrow> start h m = (None, m, [LogWarn]))
   \<and> (state m \<noteq> RUNNING \<longrightarrow> stop h m = (None, m, [LogWarn]))
   \<and> reset m = (m\<lparr>error := None, state := UNINITIALIZED\<rparr>,
        if state m = UNINITIALIZED then [] else [StateChange UNINITIALIZED (state m)])
   \<and> (list_all lawful (snd (reset m)) \<longleftrightarrow> state m = ERROR \<or> state m = UNINITIALIZED)"
proof -
  have seq: "Reset \<notin> set cs \<longrightarrow> list_all lawful (snd (run_calls m cs))"
    using run_calls_lawful by blast
  have any: "list_all (\<lambda>e. lawful e \<or> reset_change e) (snd (run_calls m cs))"
    by (rule run_calls_lawful_or_reset)
  have i: "state m \<noteq> UNINITIALIZED \<longrightarrow> initialize h m = (None, m, [LogWarn])"
    by (simp add: initialize_def)
  have s: "state m \<noteq> INITIALIZED \<and> state m \<noteq> STOPPED \<longrightarrow> start h m = (None, m, [LogWarn])"
    by (simp add: start_def)
  have t: "state m \<noteq> RUNNING \<longrightarrow> stop h m = (None, m, [LogWarn])"
    by (simp add: stop_def)
  show ?thesis using seq any i s t reset_effects [of m] reset_lawful_iff [of m] by blast
qed

lemmas lifecycle_eval = new_module_def initialize_def start_def stop_def restart_def reset_def
  setState_def handleError_def Let_def

text \<open>
  At a module whose initialization failed (state \<^verbatim>\<open>ERROR\<close>) the three guarded calls are
  refused; over a full life of a fresh module every change is legal.
\<close>

theorem lifecycle_transitions_witness:
  "Reset \<notin> set [Initialize None, Start None, Stop None, Restart None None, Stop (Some ''boom'')]
   \<and> list_all lawful (snd (run_calls (new_module ''a'' [])
        [Initialize None, Start None, Stop None, Restart None None, Stop (Some ''boom'')]))
   \<and> state (fst (run_calls (new_module ''a'' [])
        [Initialize None, Start None, Stop None, Restart None None, Stop (Some ''boom'')])) = ERROR
   \<and> state ((new_module ''a'' [])\<lparr>state := ERROR\<rparr>) \<noteq> UNINITIALIZED
   \<and> initialize None ((new_module ''a'' [])\<lparr>state := ERROR\<rparr>)
       = (None, (new_module ''a'' [])\<lparr>state := ERROR\<rparr>, [LogWarn])
   \<and> start None ((new_module ''a'' [])\<lparr>state := ERROR\<rparr>)
       = (None, (new_module ''a'' [])\<lparr>state := ERROR\<rparr>, [LogWarn])
   \<and> stop None ((new_module ''a'' [])\<lparr>state := ERROR\<rparr>)
       = (None, (new_module ''a'' [])\<lparr>state := ERROR\<rparr>, [LogWarn])
   \<and> list_all lawful (snd (reset ((new_module ''a'' [])\<lparr>state := ERROR\<rparr>)))"
proof -
  let ?cs = "[Initialize None, Start None, Stop None, Restart None None, Stop (Some ''boom'')]"
  let ?e = "(new_module ''a'' [])\<lparr>state := ERROR\<rparr>"
  have nr: "Reset \<notin> set ?cs" by simp
  have st: "state (fst (run_calls (new_module ''a'' []) ?cs)) = ERROR"
    by (simp add: lifecycle_eval)
  have se: "state ?e = ERROR" by (simp add: new_module_def)
  from lifecycle_transitions [of ?cs "new_module ''a'' []" None] nr
  have a: "list_all lawful (snd (run_calls (new_module ''a'' []) ?cs))" by blast
  from lifecycle_transitions [of "[]" ?e None] se
  have b: "initialize None ?e = (None, ?e, [LogWarn])"
    and c: "start None ?e = (None, ?e, [LogWarn])"
    and d: "stop None ?e = (None, ?e, [LogWarn])"
    and f: "list_all lawful (snd (reset ?e))"
    by simp_all
  show ?thesis using nr a st se b c d f by simp
qed

text \<open>
  The claim as it is stated fails: after a successful \<^verbatim>\<open>initialize()\<close>, \<^verbatim>\<open>reset()\<close> is
  not refused and moves the module from \<^verbatim>\<open>INITIALIZED\<close> to \<^verbatim>\<open>UNINITIALIZED\<close>, which is
  not in the table.
\<close>

theorem reset_outside_error_counterexample:
  "snd (run_calls (new_module ''a'' []) [Initialize None, Reset])
     = [StateChange INITIALIZING UNINITIALIZED, StateChange INITIALIZED INITIALIZING,
        StateChange UNINITIALIZED INITIALIZED]
   \<and> \<not> legal_transition INITIALIZED UNINITIALIZED
   \<and> \<not> list_all lawful (snd (run_calls (new_module ''a'' []) [Initialize None, Reset]))"
  by (simp add: lifecycle_eval)

section \<open>MemoryInspector: the snapshot ring is bounded\<close>

lemma length_push_snapshot:
  "length ring \<le> limit \<Longrightarrow> length (push_snapshot limit s ring) \<le> limit"
  by (simp add: push_snapshot_def Let_def)

lemma push_snapshot_recent:
  assumes "length ring \<le> limit"
  shows "push_snapshot limit s ring = drop (Suc (length ring) - limit) (ring @ [s])"
proof (cases "limit < Suc (length ring)")
  case True
  then have "Suc (length ring) - limit = 1" using assms by simp
  moreover have "drop 1 (ring @ [s]) = tl (ring @ [s])" by (simp only: One_nat_def drop_Suc drop_0)
  ultimately show ?thesis using True by (simp only: push_snapshot_def Let_def length_append_singleton if_True)
next
  case False
  then show ?thesis by (simp add: push_snapshot_def Let_def)
qed

lemma list_all_update:
  "P (k, v) \<Longrightarrow> list_all P al \<Longrightarrow> list_all P (AList.update k v al)"
  by (induction al) auto

lemma ring_of_bounded:
  assumes "list_all (\<lambda>(n, ring). length ring \<le> limit) snaps"
  shows "length (ring_of snaps n) \<le> limit"
proof (cases "map_of snaps n")
  case None
  then show ?thesis by (simp add: ring_of_def)
next
  case (Some ring)
  then have "(n, ring) \<in> set snaps" by (rule map_of_SomeD)
  then have "length ring \<le> limit" using assms by (auto simp: list_all_iff)
  then show ?thesis using Some by (simp add: ring_of_def)
qed

lemma snapshot_module_bounded:
  assumes "list_all (\<lambda>(n, ring). length ring \<le> limit) snaps"
  shows "list_all (\<lambda>(n, ring). length ring \<le> limit) (snapshot_module limit mods mu now snaps m)"
proof (cases "disabled m")
  case True
  then show ?thesis using assms by (simp add: snapshot_module_def)
next
  case False
  have "length (push_snapshot limit (make_snapshot mods mu now m) (ring_of snaps (name m))) \<le> limit"
    using ring_of_bounded [OF assms] by (rule length_push_snapshot)
  then show ?thesis using False assms by (simp add: snapshot_module_def list_all_update)
qed

lemma foldl_snapshot_bounded:
  "list_all (\<lambda>(n, ring). length ring \<le> limit) snaps \<Longrightarrow>
   list_all (\<lambda>(n, ring). length ring \<le> limit) (foldl (snapshot_module limit mods mu now) snaps ms)"
  by (induction ms arbitrary: snaps) (simp_all add: snapshot_module_bounded)

lemma takeSnapshot_bounded:
  "rings_bounded insp \<Longrightarrow> rings_bounded (takeSnapshot insp mods mu now)"
  by (simp add: rings_bounded_def takeSnapshot_def foldl_snapshot_bounded)

lemma take_snapshots_bounded:
  "rings_bounded insp \<Longrightarrow> rings_bounded (take_snapshots insp calls)"
  by (induction insp calls rule: take_snapshots.induct) (simp_all add: takeSnapshot_bounded)

lemma new_inspector_bounded: "rings_bounded (new_inspector opts)"
  by (simp add: rings_bounded_def new_inspector_def)

lemma foldl_snapshot_other:
  "n \<notin> name ` set ms \<Longrightarrow>
   map_of (foldl (snapshot_module limit mods mu now) snaps ms) n = map_of snaps n"
  by (induction ms arbitrary: snaps) (auto simp: snapshot_module_def update_conv')

lemma foldl_snapshot_entry:
  assumes "distinct (map name ms)" and "m \<in> set ms" and "\<not> disabled m"
  shows "map_of (foldl (snapshot_module limit mods mu now) snaps ms) (name m)
       = Some (push_snapshot limit (make_snapshot mods mu now m) (ring_of snaps (name m)))"
  using assms
proof (induction ms arbitrary: snaps)
  case Nil
  then show ?case by simp
next
  case (Cons x xs)
  show ?case
  proof (cases "x = m")
    case True
    then have "name m \<notin> name ` set xs" using Cons.prems(1) by auto
    then have "map_of (foldl (snapshot_module limit mods mu now)
                 (snapshot_module limit mods mu now snaps m) xs) (name m)
             = map_of (snapshot_module limit mods mu now snaps m) (name m)"
      by (rule foldl_snapshot_other)
    moreover have "map_of (snapshot_module limit mods mu now snaps m) (name m)
        = Some (push_snapshot limit (make_snapshot mods mu now m) (ring_of snaps (name m)))"
      using Cons.prems(3) by (simp add: snapshot_module_def update_conv')
    ultimately show ?thesis using True by simp
  next
    case False
    then have mx: "m \<in> set xs" using Cons.prems(2) by simp
    then have ne: "name x \<noteq> name m" using Cons.prems(1) by auto
    have "ring_of (snapshot_module limit mods mu now snaps x) (name m) = ring_of snaps (name m)"
      using ne by (simp add: snapshot_module_def ring_of_def update_conv')
    then show ?thesis using Cons.IH [of "snapshot_module limit mods mu now snaps x"] mx Cons.prems
      by simp
  qed
qed


text \<open>
  Claim C8. After every call of \<^verbatim>\<open>takeSnapshot\<close>, every ring of the inspector holds at
  most \<^verbatim>\<open>maxSnapshots\<close> entries: this holds after any number of calls from the
  constructor on, and each call preserves it. The ring of a module that is not disabled
  becomes its previous content followed by the new snapshot, without its oldest entry
  when that would be one more than \<^verbatim>\<open>maxSnapshots\<close>: the most recent \<^verbatim>\<open>maxSnapshots\<close>
  entries are kept.
\<close>

theorem takeSnapshot_ring_bound:
  "rings_bounded (take_snapshots (new_inspector opts) calls)
   \<and> (rings_bounded insp \<longrightarrow>
        rings_bounded (takeSnapshot insp mods mu now)
        \<and> (distinct (map name mods) \<and> m \<in> set mods \<and> \<not> disabled m \<longrightarrow>
             getModuleSnapshots (takeSnapshot insp mods mu now) (name m)
             = Some (drop (Suc (length (ring_of (snapshots insp) (name m)))
                             - maxSnapshots (options insp))
                       (ring_of (snapshots insp) (name m) @ [make_snapshot mods mu now m]))))"
proof -
  have run: "rings_bounded (take_snapshots (new_inspector opts) calls)"
    using new_inspector_bounded by (rule take_snapshots_bounded)
  have step: "rings_bounded (takeSnapshot insp mods mu now)" if "rings_bounded insp"
    using that by (rule takeSnapshot_bounded)
  have recent: "getModuleSnapshots (takeSnapshot insp mods mu now) (name m)
             = Some (drop (Suc (length (ring_of (snapshots insp) (name m)))
                             - maxSnapshots (options insp))
                       (ring_of (snapshots insp) (name m) @ [make_snapshot mods mu now m]))"
    if b: "rings_bounded insp" and d: "distinct (map name mods)" and i: "m \<in> set mods"
      and e: "\<not> disabled m"
  proof -
    have "length (ring_of (snapshots insp) (name m)) \<le> maxSnapshots (options insp)"
      using b unfolding rings_bounded_def by (rule ring_of_bounded)
    then have "push_snapshot (maxSnapshots (options insp)) (make_snapshot mods mu now m)
          (ring_of (snapshots insp) (name m))
        = drop (Suc (length (ring_of (snapshots insp) (name m))) - maxSnapshots (options insp))
            (ring_of (snapshots insp) (name m) @ [make_snapshot mods mu now m])"
      by (rule push_snapshot_recent)
    then show ?thesis
      using foldl_snapshot_entry [OF d i e, of "maxSnapshots (options insp)" mods mu now
          "snapshots insp"]
      by (simp add: getModuleSnapshots_def takeSnapshot_def)
  qed
  show ?thesis using run step recent by blast
qed

lemmas inspector_eval = takeSnapshot_def snapshot_module_def push_snapshot_def
  make_snapshot_def ring_of_def countReferences_def new_module_def new_inspector_def
  default_options_def getModuleSnapshots_def rings_bounded_def

text \<open>With \<^verbatim>\<open>maxSnapshots = 2\<close>, the third snapshot of a module pushes the first one out.\<close>

theorem takeSnapshot_ring_bound_witness:
  "rings_bounded (takeSnapshot (new_inspector (default_options\<lparr>maxSnapshots := 2\<rparr>))
       [new_module ''X'' []] \<lparr>mu_heapUsed = 10, mu_heapTotal = 20, mu_external = 0, mu_arrayBuffers = 0\<rparr>
       (\<lambda>n. 1))
   \<and> distinct (map name [new_module ''X'' []])
   \<and> new_module ''X'' [] \<in> set [new_module ''X'' []]
   \<and> \<not> disabled (new_module ''X'' [])
   \<and> rings_bounded (takeSnapshot (takeSnapshot (takeSnapshot
        (new_inspector (default_options\<lparr>maxSnapshots := 2\<rparr>))
        [new_module ''X'' []] \<lparr>mu_heapUsed = 10, mu_heapTotal = 20, mu_external = 0, mu_arrayBuffers = 0\<rparr> (\<lambda>n. 1))
        [new_module ''X'' []] \<lparr>mu_heapUsed = 11, mu_heapTotal = 20, mu_external = 0, mu_arrayBuffers = 0\<rparr> (\<lambda>n. 2))
        [new_module ''X'' []] \<lparr>mu_heapUsed = 12, mu_heapTotal = 20, mu_external = 0, mu_arrayBuffers = 0\<rparr> (\<lambda>n. 3))
   \<and> map timestamp (the (getModuleSnapshots (takeSnapshot (takeSnapshot (takeSnapshot
        (new_inspector (default_options\<lparr>maxSnapshots := 2\<rparr>))
        [new_module ''X'' []] \<lparr>mu_heapUsed = 10, mu_heapTotal = 20, mu_external = 0, mu_arrayBuffers = 0\<rparr> (\<lambda>n. 1))
        [new_module ''X'' []] \<lparr>mu_heapUsed = 11, mu_heapTotal = 20, mu_external = 0, mu_arrayBuffers = 0\<rparr> (\<lambda>n. 2))
        [new_module ''X'' []] \<lparr>mu_heapUsed = 12, mu_heapTotal = 20, mu_external = 0, mu_arrayBuffers = 0\<rparr> (\<lambda>n. 3))
        ''X'')) = [2, 3]"
proof -
  let ?X = "new_module ''X'' []"
  let ?o = "default_options\<lparr>maxSnapshots := 2\<rparr>"
  let ?u1 = "\<lparr>mu_heapUsed = 10, mu_heapTotal = 20, mu_external = 0, mu_arrayBuffers = 0\<rparr>"
  let ?u2 = "\<lparr>mu_heapUsed = 11, mu_heapTotal = 20, mu_external = 0, mu_arrayBuffers = 0\<rparr>"
  let ?u3 = "\<lparr>mu_heapUsed = 12, mu_heapTotal = 20, mu_external = 0, mu_arrayBuffers = 0\<rparr>"
  let ?i1 = "takeSnapshot (new_inspector ?o) [?X] ?u1 (\<lambda>n. 1)"
  let ?i2 = "takeSnapshot ?i1 [?X] ?u2 (\<lambda>n. 2)"
  have b0: "rings_bounded (new_inspector ?o)" by (simp add: inspector_eval)
  have d: "distinct (map name [?X])" by simp
  have i: "?X \<in> set [?X]" by simp
  have e: "\<not> disabled ?X" by (simp add: new_module_def)
  from takeSnapshot_ring_bound [of ?o "[]" "new_inspector ?o" "[?X]" ?u1 "\<lambda>n. 1" ?X] b0
  have b1: "rings_bounded ?i1" by blast
  from takeSnapshot_ring_bound [of ?o "[]" ?i1 "[?X]" ?u2 "\<lambda>n. 2" ?X] b1
  have b2: "rings_bounded ?i2" by blast
  from takeSnapshot_ring_bound [of ?o "[]" ?i2 "[?X]" ?u3 "\<lambda>n. 3" ?X] b2 d i e
  have b3: "rings_bounded (takeSnapshot ?i2 [?X] ?u3 (\<lambda>n. 3))"
    and r3: "getModuleSnapshots (takeSnapshot ?i2 [?X] ?u3 (\<lambda>n. 3)) (name ?X)
       = Some (drop (Suc (length (ring_of (snapshots ?i2) (name ?X))) - maxSnapshots (options ?i2))
                 (ring_of (snapshots ?i2) (name ?X) @ [make_snapshot [?X] ?u3 (\<lambda>n. 3) ?X]))"
    by blast+
  have "map timestamp (the (getModuleSnapshots (takeSnapshot ?i2 [?X] ?u3 (\<lambda>n. 3)) ''X'')) = [2, 3]"
    using r3 by (simp add: inspector_eval)
  then show ?thesis using b1 b3 d i e by simp
qed

section \<open>MemoryInspector: growth rate and severity\<close>

text \<open>Evaluation of the double arithmetic on numerals, and what rounding preserves.\<close>

lemma floor_rat_numeral_divide:
  "\<lfloor>numeral a / numeral b :: rat\<rfloor> = numeral a div numeral b"
  by (metis floor_divide_of_int_eq of_int_numeral)

lemma floor_rat_one_divide: "\<lfloor>1 / numeral b :: rat\<rfloor> = 1 div numeral b"
  by (metis floor_divide_of_int_eq of_int_1 of_int_numeral)

lemmas double_eval = fdiv_def fsub_def round_double_def quantum_def binary_exponent_def round_half_even_def
  pow2_def bit_count.simps Let_def floor_rat_numeral_divide floor_rat_one_divide


lemma pow2_power_int: "pow2 e = power_int 2 e"
  by (simp add: pow2_def power_int_def power_inverse [symmetric] inverse_eq_divide power_one_over)

lemma pow2_pos: "0 < pow2 e"
  by (simp add: pow2_power_int)

lemma pow2_add: "pow2 (a + b) = pow2 a * pow2 b"
  by (simp add: pow2_power_int power_int_add)

lemma pow2_mono: "a \<le> b \<Longrightarrow> pow2 a \<le> pow2 b"
  by (simp add: pow2_power_int power_int_increasing)

lemma pow2_strict_mono: "a < b \<Longrightarrow> pow2 a < pow2 b"
  by (simp add: pow2_power_int power_int_strict_increasing)

lemma pow2_less_imp: "pow2 a < pow2 b \<Longrightarrow> a < b"
  using pow2_mono [of b a] by (cases "a < b") auto

lemma pow2_nat: "pow2 (int k) = 2 ^ k"
  by (simp add: pow2_def)

lemma pow2_neg_nat: "pow2 (- int k) = 1 / 2 ^ k"
  by (simp add: pow2_power_int power_int_minus inverse_eq_divide)

lemma pow2_Suc: "pow2 (e + 1) = 2 * pow2 e"
  using pow2_add [of e 1] by (simp add: pow2_def)

lemma bit_count_bounds: "0 < n \<Longrightarrow> 2 ^ (bit_count n - 1) \<le> n \<and> n < 2 ^ bit_count n"
proof (induction n rule: bit_count.induct)
  case (1 n)
  show ?case
  proof (cases "n div 2 = 0")
    case True
    then have "n = 1" using "1.prems" by auto
    then show ?thesis by (simp add: bit_count.simps)
  next
    case False
    then have IH: "2 ^ (bit_count (n div 2) - 1) \<le> n div 2 \<and> n div 2 < 2 ^ bit_count (n div 2)"
      using "1.IH" "1.prems" by simp
    have pos: "0 < bit_count (n div 2)" using False by (subst bit_count.simps) simp
    have bc: "bit_count n = Suc (bit_count (n div 2))"
      using "1.prems" by (subst bit_count.simps) simp
    have "2 * 2 ^ (bit_count (n div 2) - 1) \<le> n" using IH by linarith
    moreover have "2 * 2 ^ (bit_count (n div 2) - 1) = (2::nat) ^ bit_count (n div 2)"
      using pos by (cases "bit_count (n div 2)") simp_all
    moreover have "n < 2 * 2 ^ bit_count (n div 2)" using IH by linarith
    ultimately show ?thesis using bc by simp
  qed
qed

lemma floor_bit_bounds:
  assumes "1 \<le> (x::rat)"
  shows "2 ^ (bit_count (nat \<lfloor>x\<rfloor>) - 1) \<le> x \<and> x < 2 ^ bit_count (nat \<lfloor>x\<rfloor>)"
    and "0 < bit_count (nat \<lfloor>x\<rfloor>)"
proof -
  define n where "n = nat \<lfloor>x\<rfloor>"
  have f1: "1 \<le> \<lfloor>x\<rfloor>" using assms by (simp add: le_floor_iff)
  then have n: "0 < n" "\<lfloor>x\<rfloor> = int n" by (simp_all add: n_def)
  have b: "2 ^ (bit_count n - 1) \<le> n" "n < 2 ^ bit_count n"
    using bit_count_bounds [OF n(1)] by simp_all
  have "(2::rat) ^ (bit_count n - 1) = of_nat (2 ^ (bit_count n - 1))" by simp
  also have "\<dots> \<le> of_nat n" using b(1) by (simp only: of_nat_le_iff)
  also have "\<dots> = of_int \<lfloor>x\<rfloor>" using n(2) by simp
  also have "\<dots> \<le> x" by simp
  finally have lo: "(2::rat) ^ (bit_count n - 1) \<le> x" .
  have "int n + 1 \<le> 2 ^ bit_count n" using b(2) by (metis of_nat_less_iff of_nat_numeral of_nat_power zless_imp_add1_zle)
  then have "\<lfloor>x\<rfloor> + 1 \<le> 2 ^ bit_count n" using n(2) by simp
  then have "of_int (\<lfloor>x\<rfloor> + 1) \<le> (of_int (2 ^ bit_count n) :: rat)" by (simp only: of_int_le_iff)
  moreover have "x < of_int (\<lfloor>x\<rfloor> + 1)" by linarith
  ultimately have hi: "x < 2 ^ bit_count n" by simp
  show "2 ^ (bit_count (nat \<lfloor>x\<rfloor>) - 1) \<le> x \<and> x < 2 ^ bit_count (nat \<lfloor>x\<rfloor>)"
    using lo hi by (simp add: n_def)
  show "0 < bit_count (nat \<lfloor>x\<rfloor>)"
    using n(1) unfolding n_def [symmetric] by (subst bit_count.simps) simp
qed

lemma binary_exponent_bounds:
  assumes "0 < x"
  shows "pow2 (binary_exponent x) \<le> x \<and> x < pow2 (binary_exponent x + 1)"
proof (cases "1 \<le> x")
  case True
  define k where "k = bit_count (nat \<lfloor>x\<rfloor>)"
  have b: "2 ^ (k - 1) \<le> x" "x < 2 ^ k" and k: "0 < k"
    using floor_bit_bounds [OF True] by (simp_all add: k_def)
  have e0: "int k - 1 = int (k - 1)" using k by simp
  have lo: "pow2 (int k - 1) \<le> x" using b(1) by (simp only: e0 pow2_nat)
  have "int k - 1 + 1 = int k" by simp
  then have hi: "x < pow2 (int k - 1 + 1)" using b(2) by (simp only: pow2_nat)
  have "binary_exponent x = int k - 1"
    using True lo by (simp add: binary_exponent_def k_def Let_def)
  then show ?thesis using lo hi by simp
next
  case False
  define r where "r = 1 / x"
  have r1: "1 \<le> r" using False assms by (simp add: r_def)
  define k where "k = bit_count (nat \<lfloor>r\<rfloor>)"
  have b: "2 ^ (k - 1) \<le> r" "r < 2 ^ k" and k: "0 < k"
    using floor_bit_bounds [OF r1] by (simp_all add: k_def)
  have x: "x = 1 / r" using assms by (simp add: r_def)
  have rpos: "0 < r" using r1 by simp
  have neg: "1 - int k = - int (k - 1)" using k by simp
  have p0: "pow2 (1 - int k) = 1 / 2 ^ (k - 1)"
    unfolding neg by (rule pow2_neg_nat)
  have p1: "pow2 (- int k) = 1 / 2 ^ k"
    by (rule pow2_neg_nat)
  have up: "x \<le> pow2 (1 - int k)"
    unfolding p0 x using b(1) rpos by (simp add: frac_le)
  have dn: "pow2 (- int k) < x"
    unfolding p1 x using b(2) rpos by (simp add: frac_less2)
  have be: "binary_exponent x = (if x < pow2 (1 - int k) then 1 - int k - 1 else 1 - int k)"
    using False by (simp add: binary_exponent_def k_def r_def Let_def)
  show ?thesis
  proof (cases "x < pow2 (1 - int k)")
    case lt: True
    then have "binary_exponent x = - int k" using be by simp
    moreover have "- int k + 1 = 1 - int k" by simp
    ultimately show ?thesis using dn lt by simp
  next
    case ge: False
    then have e: "binary_exponent x = 1 - int k" using be by simp
    have "x = pow2 (1 - int k)" using ge up by simp
    then show ?thesis using e pow2_strict_mono [of "1 - int k" "1 - int k + 1"] by simp
  qed
qed

lemma binary_exponent_mono:
  assumes "0 < x" and "x \<le> y"
  shows "binary_exponent x \<le> binary_exponent y"
proof -
  have "pow2 (binary_exponent x) \<le> x" using binary_exponent_bounds [OF assms(1)] by simp
  moreover have "y < pow2 (binary_exponent y + 1)"
    using binary_exponent_bounds [of y] assms by simp
  ultimately have "pow2 (binary_exponent x) < pow2 (binary_exponent y + 1)"
    using assms(2) by linarith
  then show ?thesis using pow2_less_imp by fastforce
qed

lemma round_half_even_cases:
  "round_half_even x = \<lfloor>x\<rfloor> \<or> round_half_even x = \<lfloor>x\<rfloor> + 1"
  by (simp add: round_half_even_def Let_def)

lemma round_half_even_of_int: "round_half_even (of_int n) = n"
  by (simp add: round_half_even_def Let_def)

lemma round_half_even_mono:
  assumes "x \<le> y"
  shows "round_half_even x \<le> round_half_even y"
proof (cases "\<lfloor>x\<rfloor> < \<lfloor>y\<rfloor>")
  case True
  have "round_half_even x \<le> \<lfloor>x\<rfloor> + 1" using round_half_even_cases [of x] by auto
  moreover have "\<lfloor>y\<rfloor> \<le> round_half_even y" using round_half_even_cases [of y] by auto
  ultimately show ?thesis using True by linarith
next
  case False
  then have eq: "\<lfloor>x\<rfloor> = \<lfloor>y\<rfloor>" using floor_mono [OF assms] by linarith
  then have "x - of_int \<lfloor>x\<rfloor> \<le> y - of_int \<lfloor>y\<rfloor>" using assms by simp
  then show ?thesis
    using eq by (auto simp: round_half_even_def Let_def)
qed

lemma round_half_even_ge: "of_int a \<le> x \<Longrightarrow> a \<le> round_half_even x"
  using round_half_even_mono [of "of_int a" x] by (simp add: round_half_even_of_int)

lemma round_half_even_le: "x \<le> of_int b \<Longrightarrow> round_half_even x \<le> b"
  using round_half_even_mono [of x "of_int b"] by (simp add: round_half_even_of_int)


lemma quantum_pos: "0 < quantum x"
  by (simp add: quantum_def pow2_pos)

lemma round_double_pos:
  "0 < x \<Longrightarrow> round_double x = of_int (round_half_even (x / quantum x)) * quantum x"
  by (simp add: round_double_def)

lemma round_double_zero: "round_double 0 = 0"
  by (simp add: round_double_def)

lemma round_double_minus: "round_double (- x) = - round_double x"
  by (simp add: round_double_def Let_def)

lemma round_double_nonneg:
  assumes "0 < x"
  shows "0 \<le> round_double x"
proof -
  have "of_int 0 \<le> x / quantum x" using assms quantum_pos [of x] by simp
  then have "0 \<le> round_half_even (x / quantum x)" by (rule round_half_even_ge)
  then show ?thesis using quantum_pos [of x] by (simp add: round_double_pos [OF assms])
qed

lemma pow2_53: "pow2 53 = of_int (2 ^ 53)" and pow2_52: "pow2 52 = of_int (2 ^ 52)"
  by (simp_all add: pow2_def)

lemma round_double_upper:
  assumes "0 < x"
  shows "round_double x \<le> pow2 (max (binary_exponent x) (- 1022) + 1)"
proof -
  let ?c = "max (binary_exponent x) (- 1022)"
  have "?c + 1 = 53 + (?c - 52)" by simp
  then have "pow2 (?c + 1) = pow2 53 * pow2 (?c - 52)" by (simp only: pow2_add)
  then have split: "pow2 (?c + 1) = of_int (2 ^ 53) * quantum x"
    by (simp only: quantum_def pow2_53)
  have "x < pow2 (binary_exponent x + 1)" using binary_exponent_bounds [OF assms] by simp
  also have "\<dots> \<le> pow2 (?c + 1)" by (rule pow2_mono) simp
  finally have "x / quantum x \<le> of_int (2 ^ 53)"
    using quantum_pos [of x] by (simp add: split pos_divide_le_eq)
  then have "round_half_even (x / quantum x) \<le> 2 ^ 53" by (rule round_half_even_le)
  then have "of_int (round_half_even (x / quantum x)) \<le> (of_int (2 ^ 53) :: rat)"
    by (simp only: of_int_le_iff)
  then have "of_int (round_half_even (x / quantum x)) * quantum x \<le> of_int (2 ^ 53) * quantum x"
    using quantum_pos [of x] by (simp only: mult_le_cancel_right_pos)
  then show ?thesis by (simp only: round_double_pos [OF assms] split)
qed

lemma round_double_lower:
  assumes "0 < x" and "- 1022 \<le> binary_exponent x"
  shows "pow2 (binary_exponent x) \<le> round_double x"
proof -
  have c: "max (binary_exponent x) (- 1022) = binary_exponent x" using assms(2) by simp
  have "binary_exponent x = 52 + (binary_exponent x - 52)" by simp
  then have "pow2 (binary_exponent x) = pow2 52 * pow2 (binary_exponent x - 52)"
    by (metis pow2_add)
  then have split: "pow2 (binary_exponent x) = of_int (2 ^ 52) * quantum x"
    by (simp only: quantum_def c pow2_52)
  have "pow2 (binary_exponent x) \<le> x" using binary_exponent_bounds [OF assms(1)] by simp
  then have "of_int (2 ^ 52) \<le> x / quantum x"
    using quantum_pos [of x] by (simp add: split pos_le_divide_eq)
  then have "2 ^ 52 \<le> round_half_even (x / quantum x)" by (rule round_half_even_ge)
  then have "(of_int (2 ^ 52) :: rat) \<le> of_int (round_half_even (x / quantum x))"
    by (simp only: of_int_le_iff)
  then have "of_int (2 ^ 52) * quantum x \<le> of_int (round_half_even (x / quantum x)) * quantum x"
    using quantum_pos [of x] by (simp only: mult_le_cancel_right_pos)
  then show ?thesis by (simp only: round_double_pos [OF assms(1)] split)
qed

lemma round_double_mono_pos:
  assumes "0 < x" and "x \<le> y"
  shows "round_double x \<le> round_double y"
proof -
  let ?cx = "max (binary_exponent x) (- 1022)" and ?cy = "max (binary_exponent y) (- 1022)"
  have y: "0 < y" using assms by simp
  have e: "binary_exponent x \<le> binary_exponent y" using assms by (rule binary_exponent_mono)
  then have c: "?cx \<le> ?cy" by simp
  show ?thesis
  proof (cases "?cx = ?cy")
    case True
    then have q: "quantum x = quantum y" unfolding quantum_def by (rule arg_cong2 [OF _ refl, of _ _ "\<lambda>a b. pow2 (a - b)"])
    have "x / quantum y \<le> y / quantum y"
      using assms(2) quantum_pos [of y] by (simp add: divide_right_mono)
    then have "round_half_even (x / quantum y) \<le> round_half_even (y / quantum y)"
      by (rule round_half_even_mono)
    then have "(of_int (round_half_even (x / quantum y)) :: rat)
        \<le> of_int (round_half_even (y / quantum y))"
      by (simp only: of_int_le_iff)
    then have "of_int (round_half_even (x / quantum y)) * quantum y
        \<le> of_int (round_half_even (y / quantum y)) * quantum y"
      using quantum_pos [of y] by (simp only: mult_le_cancel_right_pos)
    then show ?thesis by (simp only: round_double_pos [OF assms(1)] round_double_pos [OF y] q)
  next
    case False
    have lt: "?cx < ?cy" using c False by (rule le_neq_trans)
    have ny: "- 1022 \<le> binary_exponent y" using lt by linarith
    have cy: "?cy = binary_exponent y" using ny by linarith
    have "round_double x \<le> pow2 (?cx + 1)" using assms(1) by (rule round_double_upper)
    also have "\<dots> \<le> pow2 (binary_exponent y)" using lt cy by (intro pow2_mono) linarith
    also have "\<dots> \<le> round_double y" using y ny by (rule round_double_lower)
    finally show ?thesis .
  qed
qed

lemma round_double_mono:
  assumes "x \<le> y"
  shows "round_double x \<le> round_double y"
proof -
  consider "0 < x" | "x \<le> 0" "0 \<le> y" | "y < 0" by linarith
  then show ?thesis
  proof cases
    case 1
    then show ?thesis using assms by (rule round_double_mono_pos)
  next
    case 2
    have "round_double x \<le> 0"
    proof (cases "x = 0")
      case True
      then show ?thesis by (simp add: round_double_zero)
    next
      case False
      then have "0 < - x" using 2 by simp
      then have "0 \<le> round_double (- x)" by (rule round_double_nonneg)
      then show ?thesis by (simp add: round_double_minus)
    qed
    moreover have "0 \<le> round_double y"
    proof (cases "y = 0")
      case True
      then show ?thesis by (simp add: round_double_zero)
    next
      case False
      then have "0 < y" using 2 by simp
      then show ?thesis by (rule round_double_nonneg)
    qed
    ultimately show ?thesis by simp
  next
    case 3
    then have "0 < - y" "- y \<le> - x" using assms by simp_all
    then have "round_double (- y) \<le> round_double (- x)" by (rule round_double_mono_pos)
    then show ?thesis by (simp add: round_double_minus)
  qed
qed

lemma fdiv_mono: "0 < c \<Longrightarrow> x \<le> y \<Longrightarrow> fdiv x c \<le> fdiv y c"
  unfolding fdiv_def by (intro round_double_mono) (simp add: divide_right_mono)


lemma ring_ends: "2 \<le> length ss \<Longrightarrow> ss ! 0 = hd ss \<and> ss ! (length ss - 1) = last ss"
  by (cases ss) (auto simp: last_conv_nth)


lemma elapsed_hours_mono:
  assumes "a \<le> b"
  shows "fdiv (fdiv (fdiv (round_double (rat_of_int a)) 1000) 60) 60
      \<le> fdiv (fdiv (fdiv (round_double (rat_of_int b)) 1000) 60) 60"
proof -
  have "round_double (rat_of_int a) \<le> round_double (rat_of_int b)"
    using assms by (intro round_double_mono) simp
  then show ?thesis by (intro fdiv_mono) simp_all
qed

lemma hundredth: "round_double (1 / 100) = 5764607523034235 / 576460752303423488"
  by (simp add: double_eval)

lemma elapsed_hours_36000:
  "fdiv (fdiv (fdiv (round_double (rat_of_int 36000)) 1000) 60) 60 = round_double (1 / 100)"
  by (simp add: double_eval)

lemma elapsed_hours_35999:
  "fdiv (fdiv (fdiv (round_double (rat_of_int 35999)) 1000) 60) 60 < round_double (1 / 100)"
  by (simp add: double_eval)

lemma elapsed_hours_alt:
  "elapsed_hours ss = fdiv (fdiv (fdiv (round_double (rat_of_int (elapsed_ms ss))) 1000) 60) 60"
  by (simp add: elapsed_hours_def elapsed_ms_def fsub_def)

text \<open>
  The test \<^verbatim>\<open>timeElapsedHours < 0.01\<close> of the program succeeds exactly when the two
  snapshots are less than 36000 ms, one hundredth of an hour, apart.
\<close>

lemma elapsed_hours_test: "elapsed_hours ss < round_double (1 / 100) \<longleftrightarrow> elapsed_ms ss < 36000"
proof
  assume lt: "elapsed_hours ss < round_double (1 / 100)"
  show "elapsed_ms ss < 36000"
  proof (rule ccontr)
    assume "\<not> elapsed_ms ss < 36000"
    then have "36000 \<le> elapsed_ms ss" by simp
    then have "round_double (1 / 100) \<le> elapsed_hours ss"
      unfolding elapsed_hours_alt elapsed_hours_36000 [symmetric] by (rule elapsed_hours_mono)
    then show False using lt by simp
  qed
next
  assume "elapsed_ms ss < 36000"
  then have "elapsed_ms ss \<le> 35999" by simp
  then have "elapsed_hours ss \<le> fdiv (fdiv (fdiv (round_double (rat_of_int 35999)) 1000) 60) 60"
    unfolding elapsed_hours_alt by (rule elapsed_hours_mono)
  then show "elapsed_hours ss < round_double (1 / 100)"
    using elapsed_hours_35999 by (rule le_less_trans)
qed

lemma analyze_entry_cascade:
  assumes "2 \<le> length ss" and "36000 \<le> elapsed_ms ss"
  shows "analyze_entry th n ss =
     (if high th \<le> growth_rate ss then Some (finding n ss SeverityHigh)
      else if medium th \<le> growth_rate ss then Some (finding n ss SeverityMedium)
      else if low th \<le> growth_rate ss then Some (finding n ss SeverityLow)
      else None)"
proof -
  have ends: "ss ! 0 = hd ss" "ss ! (length ss - 1) = last ss"
    using ring_ends [OF assms(1)] by simp_all
  have hours: "fdiv (fdiv (fdiv (fsub (of_int (timestamp (last ss))) (of_int (timestamp (hd ss))))
      1000) 60) 60 = elapsed_hours ss"
    by (simp add: elapsed_hours_def)
  have rate: "fdiv (fdiv (fdiv (fsub (of_int (heapUsed (last ss))) (of_int (heapUsed (hd ss))))
      1024) 1024) (elapsed_hours ss) = growth_rate ss"
    by (simp add: growth_rate_def)
  have n2: "\<not> length ss < 2" using assms(1) by simp
  have nh: "\<not> elapsed_hours ss < round_double (1 / 100)"
    using assms(2) by (simp add: elapsed_hours_test)
  show ?thesis
    unfolding analyze_entry_def Let_def ends hours rate finding_def
    using n2 nh by simp
qed

lemma analyze_entry_too_close:
  "elapsed_ms ss < 36000 \<Longrightarrow> analyze_entry th n ss = None"
proof (cases "length ss < 2")
  case True
  then show ?thesis by (simp add: analyze_entry_def)
next
  case False
  assume c: "elapsed_ms ss < 36000"
  have ends: "ss ! 0 = hd ss" "ss ! (length ss - 1) = last ss"
    using ring_ends [of ss] False by simp_all
  have "elapsed_hours ss < round_double (1 / 100)" using c by (simp add: elapsed_hours_test)
  then show ?thesis
    unfolding analyze_entry_def Let_def ends by (simp add: elapsed_hours_def)
qed

lemma analyze_entry_name: "analyze_entry th n ss = Some r \<Longrightarrow> leak_moduleName r = n"
  by (auto simp: analyze_entry_def Let_def split: if_splits)

lemma map_filter_Cons:
  "List.map_filter f (x # xs) = (case f x of None \<Rightarrow> List.map_filter f xs | Some y \<Rightarrow> y # List.map_filter f xs)"
  by (simp add: List.map_filter_def split: option.splits)

lemma findings_other:
  "n \<notin> fst ` set al \<Longrightarrow>
   filter (\<lambda>r. leak_moduleName r = n) (List.map_filter (\<lambda>(k, ss). analyze_entry th k ss) al) = []"
proof (induction al)
  case Nil
  then show ?case by (simp add: List.map_filter_def)
next
  case (Cons e al)
  obtain k v where e: "e = (k, v)" by (cases e) auto
  have "k \<noteq> n" using Cons.prems e by auto
  then show ?case using Cons e
    by (auto simp: map_filter_Cons split: option.splits dest: analyze_entry_name)
qed

lemma findings_of_entry:
  assumes "distinct (map fst al)" and "(n, ss) \<in> set al"
  shows "filter (\<lambda>r. leak_moduleName r = n) (List.map_filter (\<lambda>(k, v). analyze_entry th k v) al)
       = (case analyze_entry th n ss of None \<Rightarrow> [] | Some r \<Rightarrow> [r])"
  using assms
proof (induction al)
  case Nil
  then show ?case by simp
next
  case (Cons e al)
  obtain k v where e: "e = (k, v)" by (cases e) auto
  show ?case
  proof (cases "k = n")
    case True
    then have "n \<notin> fst ` set al" using Cons.prems(1) e by auto
    then have rest: "filter (\<lambda>r. leak_moduleName r = n)
        (List.map_filter (\<lambda>(k, v). analyze_entry th k v) al) = []"
      by (rule findings_other)
    have "v = ss" using Cons.prems True e \<open>n \<notin> fst ` set al\<close> by force
    then show ?thesis using rest True e
      by (auto simp: map_filter_Cons split: option.splits dest: analyze_entry_name)
  next
    case False
    then have "(n, ss) \<in> set al" using Cons.prems(2) e by auto
    then have "filter (\<lambda>r. leak_moduleName r = n)
        (List.map_filter (\<lambda>(k, v). analyze_entry th k v) al)
        = (case analyze_entry th n ss of None \<Rightarrow> [] | Some r \<Rightarrow> [r])"
      using Cons.IH Cons.prems(1) by simp
    then show ?thesis using False e
      by (auto simp: map_filter_Cons split: option.splits dest: analyze_entry_name)
  qed
qed



lemmas analysis_eval = analyzeMemoryUsage_def List.map_filter_def analyze_entry_def
  default_options_def snapshot_at_def Let_def

text \<open>
  Claim C7, as amended. For a module whose ring holds at least two snapshots, the oldest
  and the newest at least 36000 ms (0.01 hours) apart, \<^verbatim>\<open>analyzeMemoryUsage\<close> reports for
  that module: one finding of severity high when the growth rate is at least the high
  threshold, else one of severity medium when it is at least the medium threshold, else
  one of severity low when it is at least the low threshold, else none; the finding
  carries that growth rate. The growth rate is the one the program computes in double
  arithmetic, \<^verbatim>\<open>((newest.heapUsed - oldest.heapUsed) / 1024 / 1024) /
  ((newest.timestamp - oldest.timestamp) / 1000 / 60 / 60)\<close>, every operation rounded to the
  nearest double. No finding is reported when the rate is below all three thresholds,
  which is: below the low threshold, when the thresholds are in increasing order. With
  the thresholds 5, 20, 50 and 25 MB gained in one hour, the finding has severity medium
  and growth rate 25.
\<close>

theorem analyzeMemoryUsage_severity:
  assumes "(n, ss) \<in> set (snapshots insp)" and "distinct (map fst (snapshots insp))"
    and "2 \<le> length ss" and "36000 \<le> elapsed_ms ss"
  shows "filter (\<lambda>r. leak_moduleName r = n) (analyzeMemoryUsage insp)
      = (if high (thresholds (options insp)) \<le> growth_rate ss then [finding n ss SeverityHigh]
         else if medium (thresholds (options insp)) \<le> growth_rate ss then [finding n ss SeverityMedium]
         else if low (thresholds (options insp)) \<le> growth_rate ss then [finding n ss SeverityLow]
         else [])
    \<and> (growth_rate ss < low (thresholds (options insp))
        \<and> growth_rate ss < medium (thresholds (options insp))
        \<and> growth_rate ss < high (thresholds (options insp))
        \<longrightarrow> filter (\<lambda>r. leak_moduleName r = n) (analyzeMemoryUsage insp) = [])
    \<and> (low (thresholds (options insp)) \<le> medium (thresholds (options insp))
        \<and> medium (thresholds (options insp)) \<le> high (thresholds (options insp))
        \<and> growth_rate ss < low (thresholds (options insp))
        \<longrightarrow> filter (\<lambda>r. leak_moduleName r = n) (analyzeMemoryUsage insp) = [])
    \<and> (thresholds (options insp) = \<lparr> low = 5, medium = 20, high = 50 \<rparr>
        \<and> elapsed_ms ss = 3600000
        \<and> heapUsed (last ss) - heapUsed (hd ss) = 25 * 2 ^ 20
        \<longrightarrow> filter (\<lambda>r. leak_moduleName r = n) (analyzeMemoryUsage insp) = [finding n ss SeverityMedium]
            \<and> growthRate (finding n ss SeverityMedium) = 25)"
proof -
  let ?th = "thresholds (options insp)"
  let ?found = "filter (\<lambda>r. leak_moduleName r = n) (analyzeMemoryUsage insp)"
  have "?found = (case analyze_entry ?th n ss of None \<Rightarrow> [] | Some r \<Rightarrow> [r])"
    unfolding analyzeMemoryUsage_def using assms(2,1) by (rule findings_of_entry)
  then have cascade: "?found
      = (if high ?th \<le> growth_rate ss then [finding n ss SeverityHigh]
         else if medium ?th \<le> growth_rate ss then [finding n ss SeverityMedium]
         else if low ?th \<le> growth_rate ss then [finding n ss SeverityLow]
         else [])"
    by (simp add: analyze_entry_cascade [OF assms(3,4)])
  have none: "?found = []"
    if "growth_rate ss < low ?th" "growth_rate ss < medium ?th" "growth_rate ss < high ?th"
    using that cascade by simp
  have below: "?found = []"
    if "low ?th \<le> medium ?th" "medium ?th \<le> high ?th" "growth_rate ss < low ?th"
    using that cascade by simp
  have scenario: "?found = [finding n ss SeverityMedium] \<and> growthRate (finding n ss SeverityMedium) = 25"
    if t: "?th = \<lparr> low = 5, medium = 20, high = 50 \<rparr>"
      and dt: "elapsed_ms ss = 3600000"
      and dh: "heapUsed (last ss) - heapUsed (hd ss) = 25 * 2 ^ 20"
  proof -
    have h: "elapsed_hours ss = 1"
      unfolding elapsed_hours_alt dt by (simp add: double_eval)
    have "rat_of_int (heapUsed (last ss)) - rat_of_int (heapUsed (hd ss))
        = rat_of_int (heapUsed (last ss) - heapUsed (hd ss))" by simp
    then have "fsub (rat_of_int (heapUsed (last ss))) (rat_of_int (heapUsed (hd ss)))
        = round_double (rat_of_int (25 * 2 ^ 20))"
      unfolding fsub_def dh by (simp only:)
    then have g: "growth_rate ss = 25"
      unfolding growth_rate_def h by (simp add: double_eval)
    then show ?thesis using cascade t by (simp add: finding_def)
  qed
  show ?thesis using cascade none below scenario by blast
qed

text \<open>The leak-detection scenario: module X, two snapshots one hour and 25 MB apart.\<close>

theorem analyzeMemoryUsage_severity_witness:
  "(''X'', [snapshot_at 1000 104857600, snapshot_at 3601000 131072000])
     \<in> set (snapshots leak_inspector)
   \<and> distinct (map fst (snapshots leak_inspector))
   \<and> 36000 \<le> elapsed_ms [snapshot_at 1000 104857600, snapshot_at 3601000 131072000]
   \<and> map severity (analyzeMemoryUsage leak_inspector) = [SeverityMedium]
   \<and> map growthRate (analyzeMemoryUsage leak_inspector) = [25]"
proof -
  let ?ss = "[snapshot_at 1000 104857600, snapshot_at 3601000 131072000]"
  have a: "(''X'', ?ss) \<in> set (snapshots leak_inspector)" by (simp add: leak_inspector_def)
  have b: "distinct (map fst (snapshots leak_inspector))" by (simp add: leak_inspector_def)
  have c: "2 \<le> length ?ss" by simp
  have d: "36000 \<le> elapsed_ms ?ss" by (simp add: elapsed_ms_def snapshot_at_def)
  have t: "thresholds (options leak_inspector) = \<lparr> low = 5, medium = 20, high = 50 \<rparr>"
    by (simp add: leak_inspector_def default_options_def)
  have dt: "elapsed_ms ?ss = 3600000" by (simp add: elapsed_ms_def snapshot_at_def)
  have dh: "heapUsed (last ?ss) - heapUsed (hd ?ss) = 25 * 2 ^ 20" by (simp add: snapshot_at_def)
  from analyzeMemoryUsage_severity [OF a b c d] t dt dh
  have f: "filter (\<lambda>r. leak_moduleName r = ''X'') (analyzeMemoryUsage leak_inspector)
        = [finding ''X'' ?ss SeverityMedium]"
    and g: "growthRate (finding ''X'' ?ss SeverityMedium) = 25"
    by blast+
  have one: "length (snapshots leak_inspector) = 1" by (simp add: leak_inspector_def)
  have names: "\<forall>r \<in> set (analyzeMemoryUsage leak_inspector). leak_moduleName r = ''X''"
    by (auto simp: analyzeMemoryUsage_def leak_inspector_def List.map_filter_def
        dest: analyze_entry_name)
  then have all: "filter (\<lambda>r. leak_moduleName r = ''X'') (analyzeMemoryUsage leak_inspector)
      = analyzeMemoryUsage leak_inspector"
    by (simp add: filter_id_conv)
  have "map severity (analyzeMemoryUsage leak_inspector) = [SeverityMedium]"
    using f all by (simp add: finding_def)
  moreover have "map growthRate (analyzeMemoryUsage leak_inspector) = [25]"
    using f g all by simp
  ultimately show ?thesis using a b d by simp
qed

text \<open>
  Two inputs on which the description fails as it is worded. With the thresholds
  low = 50, medium = 20, high = 100, a rate of 30 MB per hour is below the low threshold
  and is reported, as medium: the thresholds are not validated and the cascade tests
  high and medium first. With the default thresholds, 901120 bytes gained in 61875 ms
  are exactly 50 MB per hour, the high threshold, and the finding is medium: the program
  computes \<open>50 - 2 ^ (- 47)\<close>, printed \<^verbatim>\<open>49.99999999999999\<close>.
\<close>

theorem analyzeMemoryUsage_severity_counterexample:
  "growth_rate [snapshot_at 0 0, snapshot_at 3600000 31457280] = 30
   \<and> low (thresholds (options unordered_inspector)) = 50
   \<and> map severity (analyzeMemoryUsage unordered_inspector) = [SeverityMedium]
   \<and> exact_growth_rate [snapshot_at 0 0, snapshot_at 61875 901120] = 50
   \<and> high (thresholds (options boundary_inspector)) = 50
   \<and> map severity (analyzeMemoryUsage boundary_inspector) = [SeverityMedium]
   \<and> map growthRate (analyzeMemoryUsage boundary_inspector) = [50 - 1 / 2 ^ 47]"
proof -
  let ?u = "[snapshot_at 0 0, snapshot_at 3600000 31457280]"
  let ?b = "[snapshot_at 0 0, snapshot_at 61875 901120]"
  have 1: "growth_rate ?u = 30"
    by (simp add: growth_rate_def elapsed_hours_def snapshot_at_def double_eval)
  have 2: "low (thresholds (options unordered_inspector)) = 50"
    by (simp add: unordered_inspector_def)
  have "36000 \<le> elapsed_ms ?u" by (simp add: elapsed_ms_def snapshot_at_def)
  then have "analyze_entry \<lparr> low = 50, medium = 20, high = 100 \<rparr> ''X'' ?u
      = Some (finding ''X'' ?u SeverityMedium)"
    by (simp add: analyze_entry_cascade 1)
  then have 3: "map severity (analyzeMemoryUsage unordered_inspector) = [SeverityMedium]"
    by (simp add: unordered_inspector_def analyzeMemoryUsage_def List.map_filter_def finding_def)
  have 4: "exact_growth_rate ?b = 50"
    by (simp add: exact_growth_rate_def elapsed_ms_def snapshot_at_def)
  have 5: "high (thresholds (options boundary_inspector)) = 50"
    by (simp add: boundary_inspector_def default_options_def)
  have r: "growth_rate ?b = 50 - 1 / 2 ^ 47"
    by (simp add: growth_rate_def elapsed_hours_def snapshot_at_def double_eval)
  have "36000 \<le> elapsed_ms ?b" by (simp add: elapsed_ms_def snapshot_at_def)
  then have "analyze_entry \<lparr> low = 5, medium = 20, high = 50 \<rparr> ''X'' ?b
      = Some (finding ''X'' ?b SeverityMedium)"
    by (simp add: analyze_entry_cascade r)
  then have f: "analyzeMemoryUsage boundary_inspector = [finding ''X'' ?b SeverityMedium]"
    by (simp add: boundary_inspector_def analyzeMemoryUsage_def List.map_filter_def
        default_options_def)
  have 6: "map severity (analyzeMemoryUsage boundary_inspector) = [SeverityMedium]"
    unfolding f by (simp add: finding_def)
  have 7: "map growthRate (analyzeMemoryUsage boundary_inspector) = [50 - 1 / 2 ^ 47]"
    unfolding f by (simp add: finding_def r)
  show ?thesis using 1 2 3 4 5 6 7 by blast
qed

section \<open>Module: permission checks\<close>

lemmas manager_eval = new_manager_def default_recovery_def getModule_def has_module_def
  registerModule_def new_module_def Let_def

text \<open>
  Claim C9. \<^verbatim>\<open>checkPermission(action, resource)\<close> is true when the module's own
  permission map has the resource with the action granted; otherwise, when the module
  has a manager whose registry holds a module named \<^verbatim>\<open>auth\<close> that exposes
  \<^verbatim>\<open>checkModulePermission\<close>, it is the result of that function on this module's name,
  the action and the resource; otherwise it is true.
\<close>

theorem checkPermission_decision:
  "(locally_granted m action resource \<longrightarrow> checkPermission mm m action resource)
   \<and> (\<not> locally_granted m action resource \<and> mm = Some mgr
        \<and> getModule mgr ''auth'' = Some authModule
        \<and> checkModulePermission authModule = Some check
        \<longrightarrow> checkPermission mm m action resource = check (name m) action resource)
   \<and> (\<not> locally_granted m action resource
        \<and> \<not> (\<exists>mgr authModule check. mm = Some mgr \<and> getModule mgr ''auth'' = Some authModule
               \<and> checkModulePermission authModule = Some check)
        \<longrightarrow> checkPermission mm m action resource)"
proof -
  have local: "checkPermission mm m action resource" if "locally_granted m action resource"
    using that by (simp add: checkPermission_def)
  have auth: "checkPermission mm m action resource = check (name m) action resource"
    if "\<not> locally_granted m action resource" "mm = Some mgr"
      "getModule mgr ''auth'' = Some authModule" "checkModulePermission authModule = Some check"
    using that by (simp add: checkPermission_def)
  have dflt: "checkPermission mm m action resource"
    if n: "\<not> locally_granted m action resource"
      and no: "\<not> (\<exists>mgr authModule check. mm = Some mgr \<and> getModule mgr ''auth'' = Some authModule
               \<and> checkModulePermission authModule = Some check)"
  proof (cases mm)
    case None
    then show ?thesis using n by (simp add: checkPermission_def)
  next
    case (Some mgr')
    show ?thesis
    proof (cases "getModule mgr' ''auth''")
      case None
      then show ?thesis using n Some by (simp add: checkPermission_def)
    next
      case (Some a)
      then have "checkModulePermission a = None" using no \<open>mm = Some mgr'\<close> by (cases "checkModulePermission a") auto
      then show ?thesis using n Some \<open>mm = Some mgr'\<close> by (simp add: checkPermission_def)
    qed
  qed
  show ?thesis using local auth dflt by blast
qed


theorem checkPermission_decision_witness:
  "locally_granted (grantPermission ''write'' ''db'' (new_module ''a'' [])) ''write'' ''db''
   \<and> checkPermission (Some auth_manager)
        (grantPermission ''write'' ''db'' (new_module ''a'' [])) ''write'' ''db''
   \<and> \<not> locally_granted (grantPermission ''write'' ''db'' (new_module ''a'' [])) ''drop'' ''db''
   \<and> checkPermission (Some auth_manager)
        (grantPermission ''write'' ''db'' (new_module ''a'' [])) ''drop'' ''db'' = False
   \<and> checkPermission (Some auth_manager)
        (grantPermission ''write'' ''db'' (new_module ''a'' [])) ''read'' ''db''
   \<and> checkPermission None
        (grantPermission ''write'' ''db'' (new_module ''a'' [])) ''drop'' ''db''"
proof -
  let ?m = "grantPermission ''write'' ''db'' (new_module ''a'' [])"
  let ?auth = "(new_module ''auth'' [])\<lparr>checkModulePermission := Some (\<lambda>n a r. a = ''read'')\<rparr>"
  have g: "locally_granted ?m ''write'' ''db''"
    by (simp add: locally_granted_def grantPermission_def new_module_def)
  have n: "\<not> locally_granted ?m ''drop'' ''db''"
    by (simp add: locally_granted_def grantPermission_def new_module_def)
  have n': "\<not> locally_granted ?m ''read'' ''db''"
    by (simp add: locally_granted_def grantPermission_def new_module_def)
  have a: "getModule auth_manager ''auth'' = Some ?auth"
    by (simp add: auth_manager_def manager_eval)
  have c: "checkModulePermission ?auth = Some (\<lambda>n a r. a = ''read'')" by simp
  from checkPermission_decision [of ?m "''write''" "''db''" "Some auth_manager"] g
  have 1: "checkPermission (Some auth_manager) ?m ''write'' ''db''" by blast
  from checkPermission_decision [of ?m "''drop''" "''db''" "Some auth_manager" auth_manager ?auth
      "\<lambda>n a r. a = ''read''"] n a c
  have 2: "checkPermission (Some auth_manager) ?m ''drop'' ''db'' = False" by simp
  from checkPermission_decision [of ?m "''read''" "''db''" "Some auth_manager" auth_manager ?auth
      "\<lambda>n a r. a = ''read''"] n' a c
  have 3: "checkPermission (Some auth_manager) ?m ''read'' ''db''" by simp
  from checkPermission_decision [of ?m "''drop''" "''db''" None] n
  have 4: "checkPermission None ?m ''drop'' ''db''" by simp
  show ?thesis using g n 1 2 3 4 by simp
qed

section \<open>Manager: registering a disabled module\<close>

lemma find_name_None: "n \<notin> name ` set ms \<Longrightarrow> find (\<lambda>m. name m = n) ms = None"
  by (induction ms) auto

lemma find_name_registered:
  "n \<in> name ` set ms \<Longrightarrow> \<exists>m. find (\<lambda>m. name m = n) ms = Some m"
  by (induction ms) auto

text \<open>
  Claim C10, as the code has it. For a module whose metadata marks it disabled:
  when no module of its name is registered, \<^verbatim>\<open>registerModule\<close> returns normally and
  changes neither the manager (the registry is the same, \<^verbatim>\<open>getModule\<close> on its name is
  still undefined) nor the module (no listener is attached, no manager is stored); when
  a module of its name is registered, \<^verbatim>\<open>registerModule\<close> throws ``already registered'',
  because the duplicate check comes before the disabled check.
\<close>

theorem registerModule_disabled:
  assumes "disabled m"
  shows "(\<not> has_module mgr (name m) \<longrightarrow>
            registerModule mgr m = Inr (mgr, m) \<and> getModule mgr (name m) = None)
       \<and> (has_module mgr (name m) \<longrightarrow> registerModule mgr m = Inl (AlreadyRegistered (name m)))"
proof -
  have fresh: "registerModule mgr m = Inr (mgr, m) \<and> getModule mgr (name m) = None"
    if "\<not> has_module mgr (name m)"
  proof -
    have "find (\<lambda>x. name x = name m) (modules mgr) = None"
      using that by (simp add: has_module_def find_name_None)
    then show ?thesis using that assms by (simp add: registerModule_def getModule_def)
  qed
  have dup: "registerModule mgr m = Inl (AlreadyRegistered (name m))" if "has_module mgr (name m)"
    using that by (simp add: registerModule_def)
  show ?thesis using fresh dup by blast
qed


theorem registerModule_disabled_witness:
  "disabled ((new_module ''b'' [])\<lparr>disabled := True\<rparr>)
   \<and> \<not> has_module auth_manager (name ((new_module ''b'' [])\<lparr>disabled := True\<rparr>))
   \<and> registerModule auth_manager ((new_module ''b'' [])\<lparr>disabled := True\<rparr>)
       = Inr (auth_manager, (new_module ''b'' [])\<lparr>disabled := True\<rparr>)
   \<and> getModule auth_manager ''b'' = None
   \<and> has_module auth_manager (name ((new_module ''auth'' [])\<lparr>disabled := True\<rparr>))"
proof -
  let ?b = "(new_module ''b'' [])\<lparr>disabled := True\<rparr>"
  have d: "disabled ?b" by simp
  have f: "\<not> has_module auth_manager (name ?b)"
    by (simp add: auth_manager_def manager_eval)
  have h: "has_module auth_manager (name ((new_module ''auth'' [])\<lparr>disabled := True\<rparr>))"
    by (simp add: auth_manager_def manager_eval)
  from registerModule_disabled [OF d, of auth_manager] f
  have "registerModule auth_manager ?b = Inr (auth_manager, ?b)"
    and "getModule auth_manager (name ?b) = None"
    by blast+
  then show ?thesis using d f h by (simp add: new_module_def)
qed

text \<open>
  The claim as it is stated fails: a disabled module whose name is already registered
  makes \<^verbatim>\<open>registerModule\<close> throw.
\<close>

theorem registerModule_disabled_duplicate_counterexample:
  "disabled ((new_module ''a'' [])\<lparr>disabled := True\<rparr>)
   \<and> registerModule
       (fst (projr (registerModule (new_manager True default_recovery) (new_module ''a'' []))))
       ((new_module ''a'' [])\<lparr>disabled := True\<rparr>) = Inl (AlreadyRegistered ''a'')"
  by (simp add: manager_eval)

section \<open>Manager: a failing module directory and loadModules\<close>

lemma load_directory_rejected:
  "(rejected ls = None \<longleftrightarrow> errorCount ls = 0) \<Longrightarrow>
   (rejected (load_directory imports cfg ls dir) = None
      \<longleftrightarrow> errorCount (load_directory imports cfg ls dir) = 0)"
  by (auto simp: load_directory_def reject_with_def Let_def split: option.splits sum.splits)

lemma foldl_load_rejected:
  "(rejected ls = None \<longleftrightarrow> errorCount ls = 0) \<Longrightarrow>
   (rejected (foldl (load_directory imports cfg) ls dirs) = None
      \<longleftrightarrow> errorCount (foldl (load_directory imports cfg) ls dirs) = 0)"
  by (induction dirs arbitrary: ls) (simp_all add: load_directory_rejected)

lemma loadModules_returns_iff:
  "fst (loadModules imports cfg mgr dirs) = Inr ()
     \<longleftrightarrow> errorCount (snd (loadModules imports cfg mgr dirs)) = 0"
proof -
  let ?ls = "foldl (load_directory imports cfg)
      \<lparr> load_manager = mgr, loadedCount = 0, disabledCount = 0, errorCount = 0, rejected = None \<rparr> dirs"
  have "rejected ?ls = None \<longleftrightarrow> errorCount ?ls = 0"
    by (rule foldl_load_rejected) simp
  then show ?thesis by (auto simp: loadModules_def Let_def split: option.splits)
qed


lemmas load_eval = loadModules_def load_directory_def loadModuleFromPath_def reject_with_def
  two_directories_def

text \<open>
  Claim C4 says that a module directory that fails to load is counted and that
  \<^verbatim>\<open>loadModules\<close> still returns normally. The code counts the failure and then throws it
  again from the callback, so \<^verbatim>\<open>Promise.all\<close> rejects and \<^verbatim>\<open>loadModules\<close> throws: with
  the directories \<^verbatim>\<open>good\<close> (a module class) and \<^verbatim>\<open>bad\<close> (no module class), the call
  throws ``Not a Module subclass'' for \<^verbatim>\<open>bad\<close>, with one module loaded and registered
  and one failure counted; the line that logs the tally is not reached.
\<close>

theorem loadModules_rethrows_directory_failure:
  "fst (loadModules two_directories (\<lambda>n. False) (new_manager True default_recovery)
          [''good'', ''bad'']) = Inl (NotAModuleSubclass ''bad'')
   \<and> errorCount (snd (loadModules two_directories (\<lambda>n. False)
          (new_manager True default_recovery) [''good'', ''bad''])) = 1
   \<and> loadedCount (snd (loadModules two_directories (\<lambda>n. False)
          (new_manager True default_recovery) [''good'', ''bad''])) = 1
   \<and> map name (modules (load_manager (snd (loadModules two_directories (\<lambda>n. False)
          (new_manager True default_recovery) [''good'', ''bad''])))) = [''good'']"
  by (simp add: load_eval manager_eval)

section \<open>Manager: properties of the topological order\<close>

lemma deps_first_snoc:
  "deps_first mods seen (xs @ [m]) \<longleftrightarrow>
     deps_first mods seen xs
     \<and> (\<forall>d\<in>set (dependencies m). d \<in> name ` set mods \<longrightarrow> d \<in> seen \<union> name ` set xs)"
  by (induction xs arbitrary: seen) auto

lemma visit_keeps_visiting:
  shows "\<forall>st'. visit mods n st = Inr st' \<longrightarrow> visiting st' = visiting st"
    and "\<forall>st'. visit_dependencies mods ds st = Inr st' \<longrightarrow> visiting st' = visiting st"
proof (induct mods n st and mods ds st rule: visit_visit_dependencies.induct)
  case (1 mods moduleName st)
  show ?case
  proof (intro allI impI)
    fix st' assume r: "visit mods moduleName st = Inr st'"
    show "visiting st' = visiting st"
    proof (cases "moduleName \<in> set (visited st)")
      case True
      then show ?thesis using r by (simp add: visit.simps)
    next
      case nv: False
      have ni: "moduleName \<notin> set (visiting st)"
        using r nv by (auto simp: visit.simps split: if_splits)
      obtain mdl where f: "find (\<lambda>m. name m = moduleName) mods = Some mdl"
        using r nv ni by (auto simp: visit.simps split: option.splits)
      let ?st1 = "st\<lparr>visiting := visiting st @ [moduleName]\<rparr>"
      obtain st2 where d: "visit_dependencies mods (dependencies mdl) ?st1 = Inr st2"
        using r nv ni f by (auto simp: visit.simps split: sum.splits)
      have "visiting st2 = visiting ?st1" using "1.hyps" [OF nv ni f] d by simp
      moreover have "st' = st2\<lparr>visiting := removeAll moduleName (visiting st2),
                          visited := visited st2 @ [moduleName],
                          sorted_mods := sorted_mods st2 @ [mdl]\<rparr>"
        using r nv ni f d by (simp add: visit.simps)
      ultimately show ?thesis using ni by simp
    qed
  qed
next
  case (2 mods st)
  then show ?case by (simp add: visit_dependencies.simps)
next
  case (3 mods depName rest st)
  show ?case
  proof (intro allI impI)
    fix st' assume r: "visit_dependencies mods (depName # rest) st = Inr st'"
    show "visiting st' = visiting st"
    proof (cases "depName \<in> name ` set mods")
      case True
      obtain st1 where v: "visit mods depName st = Inr st1"
        using r True by (auto simp: visit_dependencies.simps split: sum.splits)
      have "visit_dependencies mods rest st1 = Inr st'"
        using r True v by (simp add: visit_dependencies.simps)
      then have "visiting st' = visiting st1" using "3.hyps"(2) [OF True v] by simp
      moreover have "visiting st1 = visiting st" using "3.hyps"(1) [OF True] v by simp
      ultimately show ?thesis by simp
    next
      case False
      then have "visit_dependencies mods rest st = Inr st'"
        using r by (simp add: visit_dependencies.simps)
      then show ?thesis using "3.hyps"(3) [OF False] by simp
    qed
  qed
qed

lemma visit_inv:
  shows "sort_inv mods st \<longrightarrow> (\<forall>st'. visit mods n st = Inr st' \<longrightarrow>
           sort_inv mods st' \<and> n \<in> set (visited st') \<and> set (visited st) \<subseteq> set (visited st'))"
    and "sort_inv mods st \<longrightarrow> (\<forall>st'. visit_dependencies mods ds st = Inr st' \<longrightarrow>
           sort_inv mods st' \<and> (\<forall>d\<in>set ds. d \<in> name ` set mods \<longrightarrow> d \<in> set (visited st'))
           \<and> set (visited st) \<subseteq> set (visited st'))"
proof (induct mods n st and mods ds st rule: visit_visit_dependencies.induct)
  case (1 mods moduleName st)
  show ?case
  proof (intro impI allI)
    fix st' assume inv: "sort_inv mods st" and r: "visit mods moduleName st = Inr st'"
    show "sort_inv mods st' \<and> moduleName \<in> set (visited st') \<and> set (visited st) \<subseteq> set (visited st')"
    proof (cases "moduleName \<in> set (visited st)")
      case True
      then have "st' = st" using r by (simp add: visit.simps)
      then show ?thesis using inv True by simp
    next
      case nv: False
      have ni: "moduleName \<notin> set (visiting st)"
        using r nv by (auto simp: visit.simps split: if_splits)
      obtain mdl where f: "find (\<lambda>m. name m = moduleName) mods = Some mdl"
        using r nv ni by (auto simp: visit.simps split: option.splits)
      let ?st1 = "st\<lparr>visiting := visiting st @ [moduleName]\<rparr>"
      obtain st2 where d: "visit_dependencies mods (dependencies mdl) ?st1 = Inr st2"
        using r nv ni f by (auto simp: visit.simps split: sum.splits)
      have st': "st' = st2\<lparr>visiting := removeAll moduleName (visiting st2),
                          visited := visited st2 @ [moduleName],
                          sorted_mods := sorted_mods st2 @ [mdl]\<rparr>"
        using r nv ni f d by (simp add: visit.simps)
      have inv1: "sort_inv mods ?st1" using inv nv unfolding sort_inv_def by auto
      have IH: "sort_inv mods st2"
        "\<forall>d\<in>set (dependencies mdl). d \<in> name ` set mods \<longrightarrow> d \<in> set (visited st2)"
        "set (visited ?st1) \<subseteq> set (visited st2)"
        using "1.hyps" [OF nv ni f] inv1 d by blast+
      have v2: "visiting st2 = visiting st @ [moduleName]"
        using visit_keeps_visiting(2) [of mods "dependencies mdl" ?st1] d by simp
      have nm: "name mdl = moduleName" and mem: "mdl \<in> set mods"
        using find_name_Some [OF f] by simp_all
      have nv2: "moduleName \<notin> set (visited st2)"
        using IH(1) v2 by (auto simp: sort_inv_def)
      have "sort_inv mods st'"
        unfolding sort_inv_def st'
        using IH(1,2) v2 nm mem nv2 ni
        by (auto simp: sort_inv_def deps_first_snoc)
      moreover have "moduleName \<in> set (visited st')" using st' by simp
      moreover have "set (visited st) \<subseteq> set (visited st')" using IH(3) st' by auto
      ultimately show ?thesis by blast
    qed
  qed
next
  case (2 mods st)
  then show ?case by (simp add: visit_dependencies.simps)
next
  case (3 mods depName rest st)
  show ?case
  proof (intro impI allI)
    fix st' assume inv: "sort_inv mods st"
      and r: "visit_dependencies mods (depName # rest) st = Inr st'"
    show "sort_inv mods st' \<and> (\<forall>d\<in>set (depName # rest). d \<in> name ` set mods \<longrightarrow> d \<in> set (visited st'))
           \<and> set (visited st) \<subseteq> set (visited st')"
    proof (cases "depName \<in> name ` set mods")
      case True
      obtain st1 where v: "visit mods depName st = Inr st1"
        using r True by (auto simp: visit_dependencies.simps split: sum.splits)
      have rest: "visit_dependencies mods rest st1 = Inr st'"
        using r True v by (simp add: visit_dependencies.simps)
      have a: "sort_inv mods st1" "depName \<in> set (visited st1)" "set (visited st) \<subseteq> set (visited st1)"
        using "3.hyps"(1) [OF True] inv v by blast+
      have b: "sort_inv mods st'"
        "\<forall>d\<in>set rest. d \<in> name ` set mods \<longrightarrow> d \<in> set (visited st')"
        "set (visited st1) \<subseteq> set (visited st')"
        using "3.hyps"(2) [OF True v] a(1) rest by blast+
      show ?thesis using a b by auto
    next
      case False
      have rest: "visit_dependencies mods rest st = Inr st'"
        using r False by (simp add: visit_dependencies.simps)
      then show ?thesis using "3.hyps"(3) [OF False] inv False by auto
    qed
  qed
qed


lemma visit_all_inv:
  "sort_inv mods st \<Longrightarrow> visit_all mods ns st = Inr st' \<Longrightarrow>
   sort_inv mods st' \<and> set ns \<subseteq> set (visited st') \<and> set (visited st) \<subseteq> set (visited st')"
proof (induction ns arbitrary: st)
  case Nil
  then show ?case by simp
next
  case (Cons n ns)
  show ?case
  proof (cases "n \<in> set (visited st)")
    case True
    then have "visit_all mods ns st = Inr st'" using Cons.prems(2) by simp
    then show ?thesis using Cons.IH [OF Cons.prems(1)] True by auto
  next
    case False
    obtain st1 where v: "visit mods n st = Inr st1"
      using Cons.prems(2) False by (auto split: sum.splits)
    have rest: "visit_all mods ns st1 = Inr st'" using Cons.prems(2) False v by simp
    have a: "sort_inv mods st1" "n \<in> set (visited st1)" "set (visited st) \<subseteq> set (visited st1)"
      using visit_inv(1) [of mods st n] Cons.prems(1) v by blast+
    show ?thesis using Cons.IH [OF a(1) rest] a(2,3) by auto
  qed
qed

lemma sort_inv_initial: "sort_inv mods \<lparr> visited = [], sorted_mods = [], visiting = [] \<rparr>"
  by (simp add: sort_inv_def)

lemma set_modulesByPriority: "set (modulesByPriority mods) = set mods"
  by (simp add: modulesByPriority_def)

lemma sort_result:
  assumes "sortModulesByDependencies mods = Inr sortedModules"
  shows "distinct (map name sortedModules) \<and> set sortedModules \<subseteq> set mods
       \<and> name ` set mods \<subseteq> name ` set sortedModules \<and> deps_first mods {} sortedModules"
proof -
  let ?init = "\<lparr> visited = [], sorted_mods = [], visiting = [] \<rparr>"
  obtain st where v: "visit_all mods (map name (modulesByPriority mods)) ?init = Inr st"
    and s: "sortedModules = sorted_mods st"
    using assms by (auto simp: sortModulesByDependencies_def split: sum.splits)
  have "sort_inv mods st \<and> set (map name (modulesByPriority mods)) \<subseteq> set (visited st)"
    using visit_all_inv [OF sort_inv_initial v] by simp
  then show ?thesis using s by (auto simp: sort_inv_def set_modulesByPriority)
qed

lemma sort_result_set:
  assumes "distinct (map name mods)" and "sortModulesByDependencies mods = Inr sortedModules"
  shows "set sortedModules = set mods"
proof -
  have r: "set sortedModules \<subseteq> set mods" "name ` set mods \<subseteq> name ` set sortedModules"
    using sort_result [OF assms(2)] by simp_all
  have inj: "inj_on name (set mods)" using assms(1) by (simp add: distinct_map)
  have "m \<in> set sortedModules" if "m \<in> set mods" for m
  proof -
    have "name m \<in> name ` set sortedModules" using r(2) that by blast
    then obtain s where s: "s \<in> set sortedModules" "name s = name m"
      by (metis imageE)
    then have "s \<in> set mods" using r(1) by auto
    then have "s = m" using inj s(2) that by (auto dest: inj_onD)
    then show ?thesis using s(1) by simp
  qed
  then show ?thesis using r(1) by auto
qed

lemma deps_first_precedes:
  "deps_first mods seen xs \<Longrightarrow> A \<in> set xs \<Longrightarrow> b \<in> set (dependencies A) \<Longrightarrow>
   b \<in> name ` set mods \<Longrightarrow> b \<notin> seen \<Longrightarrow> precedes b (name A) (map name xs)"
proof (induction xs arbitrary: seen)
  case Nil
  then show ?case by simp
next
  case (Cons m ms)
  have "A \<noteq> m" using Cons.prems by auto
  then have A: "A \<in> set ms" using Cons.prems(2) by simp
  have df: "deps_first mods (insert (name m) seen) ms" using Cons.prems(1) by simp
  show ?case
  proof (cases "b = name m")
    case True
    obtain mid post where "ms = mid @ A # post" using A by (auto dest: split_list)
    then have "map name (m # ms) = [] @ b # map name mid @ name A # map name post"
      using True by simp
    then show ?thesis unfolding precedes_def by blast
  next
    case False
    then have "b \<notin> insert (name m) seen" using Cons.prems(5) by simp
    then have "precedes b (name A) (map name ms)"
      using Cons.IH [OF df A Cons.prems(3,4)] by simp
    then obtain pre mid post where "map name ms = pre @ b # mid @ name A # post"
      unfolding precedes_def by blast
    then have "map name (m # ms) = (name m # pre) @ b # mid @ name A # post" by simp
    then show ?thesis unfolding precedes_def by blast
  qed
qed

lemma sort_orders_edge:
  assumes "distinct (map name mods)" and "sortModulesByDependencies mods = Inr sortedModules"
    and "dep_edge mods a b"
  shows "precedes b a (map name sortedModules)"
proof -
  obtain A where A: "A \<in> set mods" "name A = a" "b \<in> set (dependencies A)"
    and b: "b \<in> name ` set mods"
    using assms(3) by (auto simp: dep_edge_def)
  have "A \<in> set sortedModules" using sort_result_set [OF assms(1,2)] A(1) by simp
  moreover have "deps_first mods {} sortedModules" using sort_result [OF assms(2)] by simp
  ultimately show ?thesis using deps_first_precedes [of mods "{}" sortedModules A b] A b by simp
qed

lemma position_append_hit:
  "x \<notin> set pre \<Longrightarrow> position (pre @ x # post) x = length pre"
  by (simp add: position_def takeWhile_append2 [symmetric] takeWhile_append)

lemma precedes_position:
  assumes "distinct xs" and "precedes a b xs"
  shows "position xs a < position xs b"
proof -
  obtain pre mid post where xs: "xs = pre @ a # mid @ b # post"
    using assms(2) unfolding precedes_def by blast
  have "a \<notin> set pre" using assms(1) xs by auto
  then have pa: "position xs a = length pre" using xs position_append_hit by fast
  have "b \<notin> set (pre @ a # mid)" using assms(1) xs by auto
  moreover have "xs = (pre @ a # mid) @ b # post" using xs by simp
  ultimately have "position xs b = length (pre @ a # mid)" using position_append_hit by fast
  then show ?thesis using pa by simp
qed

lemma chain_descends:
  assumes "\<And>a b. dep_edge mods a b \<Longrightarrow> rank b < (rank a :: nat)"
  shows "chain mods (x # ys) \<Longrightarrow> ys \<noteq> [] \<Longrightarrow> rank (last ys) < rank x"
proof (induction ys arbitrary: x)
  case Nil
  then show ?case by simp
next
  case (Cons y ys)
  have e: "rank y < rank x" using Cons.prems(1) assms by simp
  show ?case
  proof (cases "ys = []")
    case True
    then show ?thesis using e by simp
  next
    case False
    have "chain mods (y # ys)" using Cons.prems(1) by simp
    then have "rank (last ys) < rank y" using Cons.IH False by simp
    then show ?thesis using e False by simp
  qed
qed

lemma cycle_not_sorted:
  assumes "distinct (map name mods)" and "chain mods (c # cs @ [c])"
  shows "sortModulesByDependencies mods \<noteq> Inr sortedModules"
proof
  assume s: "sortModulesByDependencies mods = Inr sortedModules"
  have d: "distinct (map name sortedModules)" using sort_result [OF s] by simp
  have "position (map name sortedModules) b < position (map name sortedModules) a" if "dep_edge mods a b" for a b
    using precedes_position [OF d sort_orders_edge [OF assms(1) s that]] .
  then have "position (map name sortedModules) (last (cs @ [c])) < position (map name sortedModules) c"
    using chain_descends [of mods "position (map name sortedModules)" c "cs @ [c]"] assms(2) by simp
  then show False by simp
qed


lemma visit_error_shape:
  shows "n \<in> name ` set mods \<longrightarrow>
           (\<forall>e. visit mods n st = Inl e \<longrightarrow> (\<exists>p m. e = CircularDependency p m))"
    and "\<forall>e. visit_dependencies mods ds st = Inl e \<longrightarrow> (\<exists>p m. e = CircularDependency p m)"
proof (induct mods n st and mods ds st rule: visit_visit_dependencies.induct)
  case (1 mods moduleName st)
  show ?case
  proof (intro impI allI)
    fix e assume reg: "moduleName \<in> name ` set mods" and r: "visit mods moduleName st = Inl e"
    have nv: "moduleName \<notin> set (visited st)" using r by (auto simp: visit.simps split: if_splits)
    show "\<exists>p m. e = CircularDependency p m"
    proof (cases "moduleName \<in> set (visiting st)")
      case True
      then show ?thesis using r nv by (auto simp: visit.simps)
    next
      case ni: False
      obtain mdl where f: "find (\<lambda>m. name m = moduleName) mods = Some mdl"
        using find_name_registered [OF reg] by blast
      have "visit_dependencies mods (dependencies mdl)
              (st\<lparr>visiting := visiting st @ [moduleName]\<rparr>) = Inl e"
        using r nv ni f by (auto simp: visit.simps split: sum.splits)
      then show ?thesis using "1.hyps" [OF nv ni f] by blast
    qed
  qed
next
  case (2 mods st)
  then show ?case by (simp add: visit_dependencies.simps)
next
  case (3 mods depName rest st)
  show ?case
  proof (intro allI impI)
    fix e assume r: "visit_dependencies mods (depName # rest) st = Inl e"
    show "\<exists>p m. e = CircularDependency p m"
    proof (cases "depName \<in> name ` set mods")
      case True
      show ?thesis
      proof (cases "visit mods depName st")
        case (Inl e')
        then have "e' = e" using r True by (simp add: visit_dependencies.simps)
        then show ?thesis using "3.hyps"(1) [OF True] Inl True by blast
      next
        case (Inr st1)
        then have "visit_dependencies mods rest st1 = Inl e"
          using r True by (simp add: visit_dependencies.simps)
        then show ?thesis using "3.hyps"(2) [OF True Inr] by blast
      qed
    next
      case False
      then have "visit_dependencies mods rest st = Inl e"
        using r by (simp add: visit_dependencies.simps)
      then show ?thesis using "3.hyps"(3) [OF False] by blast
    qed
  qed
qed

lemma chain_snoc:
  "xs \<noteq> [] \<Longrightarrow> chain mods (xs @ [d]) \<longleftrightarrow> chain mods xs \<and> dep_edge mods (last xs) d"
proof (induction xs rule: chain.induct)
  case (1 mods)
  then show ?case by simp
next
  case (2 mods a)
  then show ?case by simp
next
  case (3 mods a b rest)
  then show ?case by auto
qed

lemma chain_suffix: "chain mods (xs @ ys) \<Longrightarrow> chain mods ys"
proof (induction xs rule: chain.induct)
  case (1 mods)
  then show ?case by simp
next
  case (2 mods a)
  then show ?case by (cases ys) auto
next
  case (3 mods a b rest)
  then show ?case by simp
qed

lemma visit_reports_cycle:
  shows "chain mods (visiting st @ [n]) \<longrightarrow>
           (\<forall>p m. visit mods n st = Inl (CircularDependency p m) \<longrightarrow>
                  chain mods (p @ [m]) \<and> m \<in> set p)"
    and "visiting st \<noteq> [] \<and> chain mods (visiting st)
           \<and> (\<forall>d\<in>set ds. d \<in> name ` set mods \<longrightarrow> dep_edge mods (last (visiting st)) d) \<longrightarrow>
           (\<forall>p m. visit_dependencies mods ds st = Inl (CircularDependency p m) \<longrightarrow>
                  chain mods (p @ [m]) \<and> m \<in> set p)"
proof (induct mods n st and mods ds st rule: visit_visit_dependencies.induct)
  case (1 mods moduleName st)
  show ?case
  proof (intro impI allI)
    fix p m
    assume ch: "chain mods (visiting st @ [moduleName])"
      and r: "visit mods moduleName st = Inl (CircularDependency p m)"
    have nv: "moduleName \<notin> set (visited st)" using r by (auto simp: visit.simps split: if_splits)
    show "chain mods (p @ [m]) \<and> m \<in> set p"
    proof (cases "moduleName \<in> set (visiting st)")
      case True
      then have "p = visiting st \<and> m = moduleName" using r nv by (simp add: visit.simps)
      then show ?thesis using ch True by simp
    next
      case ni: False
      obtain mdl where f: "find (\<lambda>m. name m = moduleName) mods = Some mdl"
        using r nv ni by (auto simp: visit.simps split: option.splits)
      let ?st1 = "st\<lparr>visiting := visiting st @ [moduleName]\<rparr>"
      have d: "visit_dependencies mods (dependencies mdl) ?st1 = Inl (CircularDependency p m)"
        using r nv ni f by (auto simp: visit.simps split: sum.splits)
      have nm: "name mdl = moduleName" and mem: "mdl \<in> set mods"
        using find_name_Some [OF f] by simp_all
      have "\<forall>d\<in>set (dependencies mdl). d \<in> name ` set mods \<longrightarrow> dep_edge mods moduleName d"
        using nm mem by (auto simp: dep_edge_def)
      then show ?thesis using "1.hyps" [OF nv ni f] ch d by simp
    qed
  qed
next
  case (2 mods st)
  then show ?case by (simp add: visit_dependencies.simps)
next
  case (3 mods depName rest st)
  show ?case
  proof (intro impI allI)
    fix p m
    assume pre: "visiting st \<noteq> [] \<and> chain mods (visiting st)
           \<and> (\<forall>d\<in>set (depName # rest). d \<in> name ` set mods \<longrightarrow> dep_edge mods (last (visiting st)) d)"
      and r: "visit_dependencies mods (depName # rest) st = Inl (CircularDependency p m)"
    show "chain mods (p @ [m]) \<and> m \<in> set p"
    proof (cases "depName \<in> name ` set mods")
      case True
      then have "dep_edge mods (last (visiting st)) depName" using pre by simp
      then have ch: "chain mods (visiting st @ [depName])" using pre by (simp add: chain_snoc)
      show ?thesis
      proof (cases "visit mods depName st")
        case (Inl e)
        then have "e = CircularDependency p m" using r True by (simp add: visit_dependencies.simps)
        then show ?thesis using "3.hyps"(1) [OF True] ch Inl by simp
      next
        case (Inr st1)
        have v1: "visiting st1 = visiting st" using visit_keeps_visiting(1) [of mods depName st] Inr by simp
        have "visit_dependencies mods rest st1 = Inl (CircularDependency p m)"
          using r True Inr by (simp add: visit_dependencies.simps)
        then show ?thesis using "3.hyps"(2) [OF True Inr] pre v1 by simp
      qed
    next
      case False
      then have "visit_dependencies mods rest st = Inl (CircularDependency p m)"
        using r by (simp add: visit_dependencies.simps)
      then show ?thesis using "3.hyps"(3) [OF False] pre by simp
    qed
  qed
qed

lemma visit_all_error:
  "set ns \<subseteq> name ` set mods \<Longrightarrow> visiting st = [] \<Longrightarrow> visit_all mods ns st = Inl e \<Longrightarrow>
   \<exists>p m. e = CircularDependency p m \<and> chain mods (p @ [m]) \<and> m \<in> set p"
proof (induction ns arbitrary: st)
  case Nil
  then show ?case by simp
next
  case (Cons n ns)
  show ?case
  proof (cases "n \<in> set (visited st)")
    case True
    then show ?thesis using Cons by simp
  next
    case False
    show ?thesis
    proof (cases "visit mods n st")
      case (Inl e')
      then have e: "e' = e" using Cons.prems(3) False by simp
      have reg: "n \<in> name ` set mods" using Cons.prems(1) by simp
      obtain p m where pm: "e = CircularDependency p m"
        using visit_error_shape(1) [of n mods st] reg Inl e by blast
      have "chain mods (visiting st @ [n])" using Cons.prems(2) by simp
      then have "chain mods (p @ [m]) \<and> m \<in> set p"
        using visit_reports_cycle(1) [of mods st n] Inl e pm by simp
      then show ?thesis using pm by blast
    next
      case (Inr st1)
      have "visit_all mods ns st1 = Inl e" using Cons.prems(3) False Inr by simp
      moreover have "visiting st1 = []"
        using visit_keeps_visiting(1) [of mods n st] Inr Cons.prems(2) by simp
      ultimately show ?thesis using Cons.IH Cons.prems(1) by simp
    qed
  qed
qed

lemma sort_error_is_cycle:
  assumes "sortModulesByDependencies mods = Inl e"
  shows "\<exists>pre m cyc. e = CircularDependency (pre @ m # cyc) m \<and> chain mods (m # cyc @ [m])"
proof -
  let ?init = "\<lparr> visited = [], sorted_mods = [], visiting = [] \<rparr>"
  have v: "visit_all mods (map name (modulesByPriority mods)) ?init = Inl e"
    using assms by (auto simp: sortModulesByDependencies_def split: sum.splits)
  have "set (map name (modulesByPriority mods)) \<subseteq> name ` set mods"
    by (simp add: set_modulesByPriority)
  then obtain p m where pm: "e = CircularDependency p m" "chain mods (p @ [m])" "m \<in> set p"
    using visit_all_error [OF _ _ v] by auto
  obtain pre cyc where p: "p = pre @ m # cyc" using pm(3) by (auto dest: split_list)
  then have "chain mods (pre @ (m # cyc @ [m]))" using pm(2) by simp
  then have "chain mods (m # cyc @ [m])" by (rule chain_suffix)
  then show ?thesis using pm(1) p by blast
qed

lemma cycle_is_reported:
  assumes "distinct (map name mods)" and "chain mods (c # cs @ [c])"
  shows "\<exists>pre m cyc. sortModulesByDependencies mods = Inl (CircularDependency (pre @ m # cyc) m)
           \<and> chain mods (m # cyc @ [m])"
proof (cases "sortModulesByDependencies mods")
  case (Inl e)
  then show ?thesis using sort_error_is_cycle [OF Inl] by auto
next
  case (Inr sortedModules)
  then show ?thesis using cycle_not_sorted [OF assms] by blast
qed


subsection \<open>Manager: the lifecycle passes follow the topological order\<close>


lemma start_keeps_identity:
  "start h m = (r, m', es) \<Longrightarrow> name m' = name m \<and> dependencies m' = dependencies m"
  by (auto simp: start_def setState_def handleError_def Let_def split: if_splits option.splits)

lemma stop_keeps_identity:
  "stop h m = (r, m', es) \<Longrightarrow> name m' = name m \<and> dependencies m' = dependencies m"
  by (auto simp: stop_def setState_def handleError_def Let_def split: if_splits option.splits)

lemma modules_attemptModuleRecovery: "modules (attemptModuleRecovery mgr n) = modules mgr"
  by (simp add: attemptModuleRecovery_def Let_def)

lemma modules_on_moduleError: "modules (on_moduleError mgr n operation) = modules mgr"
  by (simp add: on_moduleError_def modules_attemptModuleRecovery)

lemma modules_deliver: "modules (deliver mgr n es) = modules mgr"
  by (induction mgr n es rule: deliver.induct) (simp_all add: modules_on_moduleError)

lemma initialized_attemptModuleRecovery: "initialized (attemptModuleRecovery mgr n) = initialized mgr"
  by (simp add: attemptModuleRecovery_def Let_def)

lemma initialized_on_moduleError: "initialized (on_moduleError mgr n operation) = initialized mgr"
  by (simp add: on_moduleError_def initialized_attemptModuleRecovery)

lemma initialized_deliver: "initialized (deliver mgr n es) = initialized mgr"
  by (induction mgr n es rule: deliver.induct) (simp_all add: initialized_on_moduleError)

lemma names_put_module: "map name (modules (put_module mgr m)) = map name (modules mgr)"
  by (simp add: put_module_def)

lemma deps_put_module:
  assumes "distinct (map name (modules mgr))" and "getModule mgr n = Some mdl"
    and "name m = n" and "dependencies m = dependencies mdl"
  shows "map dependencies (modules (put_module mgr m)) = map dependencies (modules mgr)"
proof -
  have mdl: "name mdl = n" "mdl \<in> set (modules mgr)"
    using find_name_Some [of n "modules mgr" mdl] assms(2) by (simp_all add: getModule_def)
  have inj: "inj_on name (set (modules mgr))" using assms(1) by (simp add: distinct_map)
  have "dependencies (if name x = name m then m else x) = dependencies x"
    if "x \<in> set (modules mgr)" for x
  proof (cases "name x = name m")
    case True
    then have "x = mdl" using inj that mdl assms(3) by (auto dest: inj_onD)
    then show ?thesis using True assms(4) by simp
  next
    case False
    then show ?thesis by simp
  qed
  then show ?thesis by (simp add: put_module_def)
qed

lemma same_shape_refl: "same_shape mgr mgr"
  by (simp add: same_shape_def)

lemma same_shape_trans: "same_shape c b \<Longrightarrow> same_shape b a \<Longrightarrow> same_shape c a"
  by (simp add: same_shape_def)

lemma same_shape_step:
  assumes "distinct (map name (modules mgr))" and "getModule mgr n = Some mdl"
    and "name m = name mdl" and "dependencies m = dependencies mdl"
  shows "same_shape (deliver (put_module mgr m) n es) mgr"
    and "same_shape (on_moduleError (deliver (put_module mgr m) n es) n operation) mgr"
proof -
  have "name mdl = n" using find_name_Some [of n "modules mgr" mdl] assms(2) by (simp add: getModule_def)
  then have nm: "name m = n" using assms(3) by simp
  have i: "initialized (put_module mgr m) = initialized mgr" by (simp add: put_module_def)
  show "same_shape (deliver (put_module mgr m) n es) mgr"
    using names_put_module [of mgr m] deps_put_module [OF assms(1,2) nm assms(4)] i
    by (simp add: same_shape_def modules_deliver initialized_deliver)
  then show "same_shape (on_moduleError (deliver (put_module mgr m) n es) n operation) mgr"
    by (simp add: same_shape_def modules_on_moduleError initialized_on_moduleError)
qed


lemma start_pass_shape:
  "distinct (map name (modules mgr)) \<Longrightarrow> start_pass hooks ns (mgr, calls) = (mgr', calls') \<Longrightarrow>
   same_shape mgr' mgr"
proof (induction ns arbitrary: mgr calls)
  case Nil
  then show ?case by (simp add: same_shape_refl)
next
  case (Cons n ns)
  show ?case
  proof (cases "getModule mgr n")
    case None
    then show ?thesis using Cons by simp
  next
    case (Some mdl)
    show ?thesis
    proof (cases "state mdl = RUNNING \<or> (state mdl \<noteq> INITIALIZED \<and> state mdl \<noteq> STOPPED)")
      case True
      then have "start_pass hooks ns (mgr, calls) = (mgr', calls')"
        using Cons.prems(2) Some by (auto split: if_splits)
      then show ?thesis using Cons.IH [OF Cons.prems(1)] by simp
    next
      case False
      obtain r m' es where i: "start (hooks n OnStart) mdl = (r, m', es)"
        by (cases "start (hooks n OnStart) mdl") auto
      let ?mgr1 = "deliver (put_module mgr m') n es"
      let ?mgr2 = "if r \<noteq> None \<or> state m' \<noteq> RUNNING then on_moduleError ?mgr1 n ''start'' else ?mgr1"
      have id: "name m' = name mdl" "dependencies m' = dependencies mdl"
        using start_keeps_identity [OF i] by simp_all
      have sh: "same_shape ?mgr2 mgr"
        using same_shape_step [OF Cons.prems(1) Some id] by simp
      then have d2: "distinct (map name (modules ?mgr2))"
        using Cons.prems(1) by (simp add: same_shape_def)
      have nr: "state mdl \<noteq> RUNNING" and ok: "\<not> (state mdl \<noteq> INITIALIZED \<and> state mdl \<noteq> STOPPED)"
        using False by auto
      have "start_pass hooks ns (?mgr2, calls @ [CallStart n]) = (mgr', calls')"
        using Cons.prems(2) Some i by (simp only: start_pass.simps option.case nr ok if_False Let_def prod.case)
      then have "same_shape mgr' ?mgr2" using Cons.IH [OF d2] by simp
      then show ?thesis using sh same_shape_trans by blast
    qed
  qed
qed














lemmas sort_eval = sortModulesByDependencies_def modulesByPriority_def visit.simps
  visit_dependencies.simps

lemmas pass_eval = initializeModules_def startModules_def stopModules_def put_module_def
  on_moduleError_def attemptModuleRecovery_def all_succeed_def








lemma join_with_snoc:
  "p \<noteq> [] \<Longrightarrow> join_with sep p @ sep @ m = join_with sep (p @ [m])"
proof (induction sep p rule: join_with.induct)
  case (1 sep)
  then show ?case by simp
next
  case (2 sep x)
  then show ?case by simp
next
  case (3 sep x y rest)
  then show ?case by simp
qed





text \<open>
  Claim C2, as amended. When the dependency lists of the registered modules contain a cycle
  (a chain of dependency edges leading from a module \<open>c\<close> back to \<open>c\<close>),
  \<open>sortModulesByDependencies\<close> returns no order: it fails with \<open>CircularDependency\<close>, whose
  path ends in a dependency cycle \<open>m \<rightarrow> \<dots> \<rightarrow> m\<close> of the registry and whose message is
  \<open>Circular dependency detected: \<close> followed by the path joined with \<open> -> \<close> and closed by \<open>m\<close>.
  \<^verbatim>\<open>initializeModules\<close> on a manager not yet initialised fails with that error; on a manager
  already initialised it returns at its guard, before it sorts. \<^verbatim>\<open>startModules\<close> on an
  initialised manager and \<^verbatim>\<open>stopModules\<close> fail with that error. In every case no hook of
  any module is called and the manager is left unchanged.
\<close>

theorem circular_dependency_is_rejected:
  assumes "distinct (map name (modules mgr))" and "chain (modules mgr) (c # cs @ [c])"
  shows "\<exists>pre m cyc.
      sortModulesByDependencies (modules mgr) = Inl (CircularDependency (pre @ m # cyc) m)
      \<and> chain (modules mgr) (m # cyc @ [m])
      \<and> error_message (CircularDependency (pre @ m # cyc) m)
          = ''Circular dependency detected: '' @ join_with '' -> '' (pre @ m # cyc @ [m])
      \<and> initializeModules hooks mgr
          = (if initialized mgr then (None, mgr, [])
             else (Some (CircularDependency (pre @ m # cyc) m), mgr, []))
      \<and> startModules hooks mgr
          = (if initialized mgr then (Some (CircularDependency (pre @ m # cyc) m), mgr, [])
             else (Some NotInitialized, mgr, []))
      \<and> stopModules hooks mgr = (Some (CircularDependency (pre @ m # cyc) m), mgr, [])"
proof -
  obtain pre m cyc where s: "sortModulesByDependencies (modules mgr)
        = Inl (CircularDependency (pre @ m # cyc) m)"
    and ch: "chain (modules mgr) (m # cyc @ [m])"
    using cycle_is_reported [OF assms] by blast
  have msg: "error_message (CircularDependency (pre @ m # cyc) m)
      = ''Circular dependency detected: '' @ join_with '' -> '' (pre @ m # cyc @ [m])"
    using join_with_snoc [of "pre @ m # cyc" "'' -> ''" m] by simp
  have i: "initializeModules hooks mgr
          = (if initialized mgr then (None, mgr, [])
             else (Some (CircularDependency (pre @ m # cyc) m), mgr, []))"
    using s by (simp add: initializeModules_def)
  have st: "startModules hooks mgr
          = (if initialized mgr then (Some (CircularDependency (pre @ m # cyc) m), mgr, [])
             else (Some NotInitialized, mgr, []))"
    using s by (simp add: startModules_def)
  have sp: "stopModules hooks mgr = (Some (CircularDependency (pre @ m # cyc) m), mgr, [])"
    using s by (simp add: stopModules_def)
  show ?thesis using s ch msg i st sp by blast
qed

theorem circular_dependency_is_rejected_witness:
  "distinct (map name (modules cycle_manager))
   \<and> chain (modules cycle_manager) (''A'' # [''B''] @ [''A''])
   \<and> \<not> initialized cycle_manager
   \<and> initializeModules all_succeed cycle_manager
       = (Some (CircularDependency [''A'', ''B''] ''A''), cycle_manager, [])
   \<and> error_message (CircularDependency [''A'', ''B''] ''A'')
       = ''Circular dependency detected: A -> B -> A''
   \<and> distinct (map name (modules initialized_cycle_manager))
   \<and> chain (modules initialized_cycle_manager) (''A'' # [''B''] @ [''A''])
   \<and> initialized initialized_cycle_manager
   \<and> startModules all_succeed initialized_cycle_manager
       = (Some (CircularDependency [''A'', ''B''] ''A''), initialized_cycle_manager, [])
   \<and> stopModules all_succeed initialized_cycle_manager
       = (Some (CircularDependency [''A'', ''B''] ''A''), initialized_cycle_manager, [])"
proof -
  have d: "distinct (map name (modules cycle_manager))"
    by (simp add: cycle_manager_def cycle_registry_def manager_eval)
  have c: "chain (modules cycle_manager) (''A'' # [''B''] @ [''A''])"
    by (simp add: dep_edge_def cycle_manager_def cycle_registry_def manager_eval)
  have ni: "\<not> initialized cycle_manager"
    by (simp add: cycle_manager_def cycle_registry_def manager_eval)
  have s: "sortModulesByDependencies (modules cycle_manager)
      = Inl (CircularDependency [''A'', ''B''] ''A'')"
    by (simp add: cycle_manager_def cycle_registry_def manager_eval sort_eval)
  from circular_dependency_is_rejected [OF d c, of all_succeed]
  obtain pre m cyc where
    r: "sortModulesByDependencies (modules cycle_manager)
        = Inl (CircularDependency (pre @ m # cyc) m)"
    and msg: "error_message (CircularDependency (pre @ m # cyc) m)
          = ''Circular dependency detected: '' @ join_with '' -> '' (pre @ m # cyc @ [m])"
    and i: "initializeModules all_succeed cycle_manager
          = (if initialized cycle_manager then (None, cycle_manager, [])
             else (Some (CircularDependency (pre @ m # cyc) m), cycle_manager, []))"
    by blast
  have "Inl (CircularDependency (pre @ m # cyc) m)
      = (Inl (CircularDependency [''A'', ''B''] ''A'') :: ManagerError + Module list)"
    using r s by (rule trans [OF sym])
  then have eq: "pre @ m # cyc = [''A'', ''B''] \<and> m = ''A''"
    unfolding sum.inject ManagerError.inject .
  have eq1: "pre @ m # cyc = [''A'', ''B'']" and eq2: "m = ''A''" using eq by blast+
  have "initializeModules all_succeed cycle_manager
       = (Some (CircularDependency (pre @ m # cyc) m), cycle_manager, [])"
    using i ni by (simp only: if_False)
  then have first: "initializeModules all_succeed cycle_manager
       = (Some (CircularDependency [''A'', ''B''] ''A''), cycle_manager, [])"
    unfolding eq1 unfolding eq2 .
  have "pre @ m # cyc @ [m] = (pre @ m # cyc) @ [m]" by simp
  then have "error_message (CircularDependency (pre @ m # cyc) m)
          = ''Circular dependency detected: '' @ join_with '' -> '' ((pre @ m # cyc) @ [m])"
    using msg by (simp only:)
  then have "error_message (CircularDependency [''A'', ''B''] ''A'')
          = ''Circular dependency detected: '' @ join_with '' -> '' ([''A'', ''B''] @ [''A''])"
    unfolding eq1 unfolding eq2 .
  then have message: "error_message (CircularDependency [''A'', ''B''] ''A'')
       = ''Circular dependency detected: A -> B -> A''"
    by (simp add: join_with.simps)
  have d': "distinct (map name (modules initialized_cycle_manager))"
    by (simp add: initialized_cycle_manager_def cycle_registry_def manager_eval sort_eval
        pass_eval)
  have c': "chain (modules initialized_cycle_manager) (''A'' # [''B''] @ [''A''])"
    by (simp add: dep_edge_def initialized_cycle_manager_def cycle_registry_def manager_eval
        sort_eval pass_eval)
  have yes: "initialized initialized_cycle_manager"
    by (simp add: initialized_cycle_manager_def cycle_registry_def manager_eval sort_eval
        pass_eval)
  have s': "sortModulesByDependencies (modules initialized_cycle_manager)
      = Inl (CircularDependency [''A'', ''B''] ''A'')"
    by (simp add: initialized_cycle_manager_def cycle_registry_def manager_eval sort_eval
        pass_eval)
  from circular_dependency_is_rejected [OF d' c', of all_succeed]
  obtain pre' m' cyc' where
    r': "sortModulesByDependencies (modules initialized_cycle_manager)
        = Inl (CircularDependency (pre' @ m' # cyc') m')"
    and st: "startModules all_succeed initialized_cycle_manager
          = (if initialized initialized_cycle_manager
             then (Some (CircularDependency (pre' @ m' # cyc') m'), initialized_cycle_manager, [])
             else (Some NotInitialized, initialized_cycle_manager, []))"
    and sp: "stopModules all_succeed initialized_cycle_manager
          = (Some (CircularDependency (pre' @ m' # cyc') m'), initialized_cycle_manager, [])"
    by blast
  have "Inl (CircularDependency (pre' @ m' # cyc') m')
      = (Inl (CircularDependency [''A'', ''B''] ''A'') :: ManagerError + Module list)"
    using r' s' by (rule trans [OF sym])
  then have eq': "pre' @ m' # cyc' = [''A'', ''B''] \<and> m' = ''A''"
    unfolding sum.inject ManagerError.inject .
  have eq1': "pre' @ m' # cyc' = [''A'', ''B'']" and eq2': "m' = ''A''" using eq' by blast+
  have "startModules all_succeed initialized_cycle_manager
       = (Some (CircularDependency (pre' @ m' # cyc') m'), initialized_cycle_manager, [])"
    using st yes by (simp only: if_True)
  then have second: "startModules all_succeed initialized_cycle_manager
       = (Some (CircularDependency [''A'', ''B''] ''A''), initialized_cycle_manager, [])"
    unfolding eq1' unfolding eq2' .
  have third: "stopModules all_succeed initialized_cycle_manager
       = (Some (CircularDependency [''A'', ''B''] ''A''), initialized_cycle_manager, [])"
    using sp unfolding eq1' unfolding eq2' .
  show ?thesis using d c ni first message d' c' yes second third by blast
qed

text \<open>
  On a manager already initialised the cycle is not reported by \<^verbatim>\<open>initializeModules\<close>:
  the two modules of the cycle scenario, registered after the manager was initialised,
  form a cycle, and the call returns normally.
\<close>

theorem initialized_manager_cycle_counterexample:
  "initialized initialized_cycle_manager
   \<and> map name (modules initialized_cycle_manager) = [''A'', ''B'']
   \<and> chain (modules initialized_cycle_manager) [''A'', ''B'', ''A'']
   \<and> initializeModules all_succeed initialized_cycle_manager
       = (None, initialized_cycle_manager, [])"
proof -
  have yes: "initialized initialized_cycle_manager"
    by (simp add: initialized_cycle_manager_def cycle_registry_def manager_eval sort_eval
        pass_eval)
  have names: "map name (modules initialized_cycle_manager) = [''A'', ''B'']"
    by (simp add: initialized_cycle_manager_def cycle_registry_def manager_eval sort_eval
        pass_eval)
  have cycle: "chain (modules initialized_cycle_manager) [''A'', ''B'', ''A'']"
    by (simp add: dep_edge_def initialized_cycle_manager_def cycle_registry_def manager_eval
        sort_eval pass_eval)
  have "initializeModules all_succeed initialized_cycle_manager
       = (None, initialized_cycle_manager, [])"
    using yes by (simp add: initializeModules_def)
  then show ?thesis using yes names cycle by simp
qed

section \<open>Manager: the recovery supervisor\<close>

lemmas supervisor_eval = manager_run_def fire_timer_def recovery_callback_def recovery_run_def
  recoverModule_def put_module_def on_moduleError_def attemptModuleRecovery_def hasError_def

lemma attempts_since_Nil: "attempts_since n [] = 0"
  by (simp add: attempts_since_def)

lemma attempts_since_snoc:
  "attempts_since n (acts @ [a])
     = (if a = Recovered n then 0
        else if is_scheduled n a then attempts_since n acts + 1
        else attempts_since n acts)"
  by (simp add: attempts_since_def)

lemma scheduled_count_snoc:
  "scheduled_count n (acts @ [a]) = scheduled_count n acts + (if is_scheduled n a then 1 else 0)"
  by (simp add: scheduled_count_def)

lemma not_scheduled_Recovered: "\<not> is_scheduled n (Recovered x)"
  by (simp add: is_scheduled_def)

lemma attempts_since_segment:
  "Recovered n \<notin> set seg \<Longrightarrow>
     attempts_since n (pre @ seg) = attempts_since n pre + scheduled_count n seg"
proof (induction seg rule: rev_induct)
  case Nil
  show ?case by (simp add: scheduled_count_def)
next
  case (snoc a seg)
  have "attempts_since n ((pre @ seg) @ [a])
      = attempts_since n pre + scheduled_count n (seg @ [a])"
    using snoc by (simp only: attempts_since_snoc scheduled_count_snoc) auto
  then show ?case by simp
qed

lemma take_snoc_cases:
  "take k (acts @ [a]) = (if k \<le> length acts then take k acts else acts @ [a])"
  by simp

lemma counters_agree_empty: "counters_agree [] Map.empty limit"
  by (simp add: counters_agree_def attempts_since_Nil)

lemma counters_agree_take_all:
  "counters_agree acts counters limit \<Longrightarrow> attempts_since n acts \<le> limit"
proof -
  assume "counters_agree acts counters limit"
  then have "attempts_since n (take (length acts) acts) \<le> limit"
    unfolding counters_agree_def by blast
  then show ?thesis by simp
qed

lemma counters_agree_other:
  assumes "counters_agree acts counters limit"
    and "\<And>n. a \<noteq> Recovered n" and "\<And>n. \<not> is_scheduled n a"
  shows "counters_agree (acts @ [a]) counters limit"
  unfolding counters_agree_def
proof (intro allI conjI)
  fix n
  show "(case counters n of None \<Rightarrow> 0 | Some a \<Rightarrow> a) = attempts_since n (acts @ [a])"
    using assms by (simp add: attempts_since_snoc counters_agree_def)
  fix k
  have "attempts_since n (acts @ [a]) \<le> limit"
    using assms counters_agree_take_all [OF assms(1), of n] by (simp add: attempts_since_snoc)
  then show "attempts_since n (take k (acts @ [a])) \<le> limit"
    using assms(1) by (simp only: take_snoc_cases counters_agree_def split: if_splits) auto
qed

lemma counters_agree_recovered:
  assumes "counters_agree acts counters limit"
  shows "counters_agree (acts @ [Recovered x]) (counters(x := None)) limit"
  unfolding counters_agree_def
proof (intro allI conjI)
  fix n
  show "(case (counters(x := None)) n of None \<Rightarrow> 0 | Some a \<Rightarrow> a)
      = attempts_since n (acts @ [Recovered x])"
    using assms by (simp add: attempts_since_snoc counters_agree_def is_scheduled_def)
  fix k
  have "attempts_since n (acts @ [Recovered x]) \<le> limit"
    using counters_agree_take_all [OF assms, of n]
    by (simp add: attempts_since_snoc is_scheduled_def)
  then show "attempts_since n (take k (acts @ [Recovered x])) \<le> limit"
    using assms by (simp only: take_snoc_cases counters_agree_def split: if_splits) auto
qed

lemma counters_agree_scheduled:
  assumes "counters_agree acts counters limit"
    and "(case counters x of None \<Rightarrow> 0 | Some a \<Rightarrow> a) = c" and "c < limit"
  shows "counters_agree (acts @ [Scheduled x k]) (counters(x \<mapsto> c + 1)) limit"
  unfolding counters_agree_def
proof (intro allI conjI)
  fix n
  show "(case (counters(x \<mapsto> c + 1)) n of None \<Rightarrow> 0 | Some a \<Rightarrow> a)
      = attempts_since n (acts @ [Scheduled x k])"
    using assms by (auto simp: attempts_since_snoc counters_agree_def is_scheduled_def)
  fix j
  have "attempts_since n (acts @ [Scheduled x k]) \<le> limit"
    using counters_agree_take_all [OF assms(1), of n] assms
    by (auto simp: attempts_since_snoc is_scheduled_def counters_agree_def)
  then show "attempts_since n (take j (acts @ [Scheduled x k])) \<le> limit"
    using assms(1) by (simp only: take_snoc_cases counters_agree_def split: if_splits) auto
qed

lemma inv_attemptModuleRecovery:
  "supervisor_inv mgr \<Longrightarrow> supervisor_inv (attemptModuleRecovery mgr n)"
proof -
  assume inv: "supervisor_inv mgr"
  define c where "c = (case recoveryAttempts mgr n of None \<Rightarrow> 0 | Some a \<Rightarrow> a)"
  show ?thesis
  proof (cases "maxAttempts (recoveryOptions mgr) \<le> c")
    case True
    have "counters_agree (journal mgr @ [LimitReached n]) (recoveryAttempts mgr)
        (maxAttempts (recoveryOptions mgr))"
      using inv unfolding supervisor_inv_def
      by (intro counters_agree_other) (simp_all add: is_scheduled_def)
    then show ?thesis
      using True by (simp add: supervisor_inv_def attemptModuleRecovery_def c_def Let_def)
  next
    case False
    then have lt: "c < maxAttempts (recoveryOptions mgr)" by simp
    have "counters_agree (journal mgr @ [Scheduled n (c + 1)])
        ((recoveryAttempts mgr)(n \<mapsto> c + 1)) (maxAttempts (recoveryOptions mgr))"
      using inv c_def [symmetric] lt unfolding supervisor_inv_def
      by (intro counters_agree_scheduled)
    then show ?thesis
      using False by (simp add: supervisor_inv_def attemptModuleRecovery_def c_def Let_def)
  qed
qed

lemma inv_on_moduleError:
  "supervisor_inv mgr \<Longrightarrow> supervisor_inv (on_moduleError mgr n operation)"
  by (simp add: on_moduleError_def inv_attemptModuleRecovery)

lemma inv_deliver: "supervisor_inv mgr \<Longrightarrow> supervisor_inv (deliver mgr n es)"
  by (induction mgr n es rule: deliver.induct) (simp_all add: inv_on_moduleError)

lemma inv_put_module: "supervisor_inv (put_module mgr m) = supervisor_inv mgr"
  by (simp add: supervisor_inv_def put_module_def)

lemma inv_timers: "supervisor_inv (mgr\<lparr>timers := ts\<rparr>) = supervisor_inv mgr"
  by (simp add: supervisor_inv_def)

lemma inv_log:
  assumes "supervisor_inv mgr" and "\<And>n. a \<noteq> Recovered n" and "\<And>n. \<not> is_scheduled n a"
  shows "supervisor_inv (mgr\<lparr>journal := journal mgr @ [a]\<rparr>)"
  using assms by (simp add: supervisor_inv_def counters_agree_other)

lemma inv_recovered:
  assumes "supervisor_inv mgr"
  shows "supervisor_inv (mgr\<lparr>recoveryAttempts := (recoveryAttempts mgr)(n := None),
                            journal := journal mgr @ [Recovered n]\<rparr>)"
  using assms by (simp add: supervisor_inv_def counters_agree_recovered)

lemma inv_recovery_run:
  assumes "supervisor_inv mgr"
  shows "supervisor_inv (snd (recovery_run onInitialize onStart mgr n mdl))"
proof -
  obtain m1 e1 where r1: "reset mdl = (m1, e1)" by (cases "reset mdl")
  obtain r2 m2 e2 where r2: "initialize onInitialize m1 = (r2, m2, e2)"
    by (cases "initialize onInitialize m1")
  obtain r3 m3 e3 where r3: "start onStart m2 = (r3, m3, e3)" by (cases "start onStart m2")
  define mgr2 where "mgr2 = deliver (put_module mgr m2) n (e1 @ e2)"
  define mgr3 where "mgr3 = deliver (put_module mgr2 m3) n e3"
  have i2: "supervisor_inv mgr2"
    unfolding mgr2_def using assms by (simp add: inv_deliver inv_put_module)
  have i3: "supervisor_inv mgr3"
    unfolding mgr3_def using i2 by (simp add: inv_deliver inv_put_module)
  have failed: "supervisor_inv (m\<lparr>journal := journal m @ [RecoveryFailed n]\<rparr>)"
    if "supervisor_inv m" for m
    using that by (intro inv_log) (simp_all add: is_scheduled_def)
  show ?thesis
    using i2 i3 failed [OF i2] failed [OF i3] inv_recovered [OF i3, of n]
    by (simp add: recovery_run_def r1 r2 r3 Let_def mgr2_def mgr3_def split: option.splits)
qed

lemma inv_recovery_callback:
  assumes "supervisor_inv mgr"
  shows "supervisor_inv (recovery_callback onInitialize onStart mgr n attempt)"
proof -
  have "supervisor_inv (mgr\<lparr>journal := journal mgr @ [Attempting n attempt]\<rparr>)"
    using assms by (intro inv_log) (simp_all add: is_scheduled_def)
  then show ?thesis
    using assms by (simp add: recovery_callback_def inv_recovery_run split: option.splits)
qed

lemma inv_fire_timer:
  "supervisor_inv mgr \<Longrightarrow> supervisor_inv (fire_timer onInitialize onStart mgr)"
  by (simp add: fire_timer_def inv_recovery_callback inv_timers split: list.splits prod.splits)

lemma inv_recoverModule:
  "supervisor_inv mgr \<Longrightarrow> supervisor_inv (snd (recoverModule onInitialize onStart mgr n))"
  by (simp add: recoverModule_def inv_recovery_run split: option.splits)

lemma inv_manager_step: "supervisor_inv mgr \<Longrightarrow> supervisor_inv (manager_step mgr ev)"
  by (cases ev)
    (simp_all add: inv_on_moduleError inv_deliver inv_put_module inv_fire_timer
      inv_recoverModule split: option.splits prod.splits)

lemma inv_manager_run: "supervisor_inv mgr \<Longrightarrow> supervisor_inv (manager_run mgr evs)"
  unfolding manager_run_def
  by (induction evs arbitrary: mgr) (simp_all add: inv_manager_step)


lemma options_attemptModuleRecovery:
  "recoveryOptions (attemptModuleRecovery mgr n) = recoveryOptions mgr"
  by (simp add: attemptModuleRecovery_def Let_def)

lemma options_on_moduleError:
  "recoveryOptions (on_moduleError mgr n operation) = recoveryOptions mgr"
  by (simp add: on_moduleError_def options_attemptModuleRecovery)

lemma options_deliver: "recoveryOptions (deliver mgr n es) = recoveryOptions mgr"
  by (induction mgr n es rule: deliver.induct) (simp_all add: options_on_moduleError)

lemma options_put_module: "recoveryOptions (put_module mgr m) = recoveryOptions mgr"
  by (simp add: put_module_def)

lemma options_recovery_run:
  "recoveryOptions (snd (recovery_run onInitialize onStart mgr n mdl)) = recoveryOptions mgr"
  by (simp add: recovery_run_def Let_def options_deliver options_put_module
      split: prod.splits option.splits)

lemma options_fire_timer:
  "recoveryOptions (fire_timer onInitialize onStart mgr) = recoveryOptions mgr"
  by (simp add: fire_timer_def recovery_callback_def options_recovery_run
      split: list.splits prod.splits option.splits)

lemma options_recoverModule:
  "recoveryOptions (snd (recoverModule onInitialize onStart mgr n)) = recoveryOptions mgr"
  by (simp add: recoverModule_def options_recovery_run split: option.splits)

lemma options_manager_step: "recoveryOptions (manager_step mgr ev) = recoveryOptions mgr"
  by (cases ev)
    (simp_all add: options_on_moduleError options_deliver options_put_module options_fire_timer
      options_recoverModule split: option.splits prod.splits)

lemma options_manager_run: "recoveryOptions (manager_run mgr evs) = recoveryOptions mgr"
  unfolding manager_run_def
  by (induction evs arbitrary: mgr) (simp_all add: options_manager_step)

lemma disabled_on_moduleError:
  "\<not> enabled (recoveryOptions mgr) \<Longrightarrow> on_moduleError mgr n operation = mgr"
  by (simp add: on_moduleError_def)

lemma disabled_deliver: "\<not> enabled (recoveryOptions mgr) \<Longrightarrow> deliver mgr n es = mgr"
  by (induction mgr n es rule: deliver.induct) (simp_all add: disabled_on_moduleError)

lemma idle_put_module: "idle (put_module mgr m) = idle mgr"
  by (simp add: idle_def put_module_def)

lemma idle_recovery_run:
  assumes "\<not> enabled (recoveryOptions mgr)" and "idle mgr"
  shows "idle (snd (recovery_run onInitialize onStart mgr n mdl))"
proof -
  have d: "deliver (put_module mgr m) n es = put_module mgr m" for m es
    using assms(1) by (simp add: disabled_deliver options_put_module)
  have d2: "deliver (put_module (put_module mgr m) m') n es = put_module (put_module mgr m) m'"
    for m m' es
    using assms(1) by (simp add: disabled_deliver options_put_module)
  show ?thesis
    using assms(2)
    by (simp add: recovery_run_def Let_def d d2 split: prod.splits option.splits)
      (auto simp: idle_def put_module_def is_scheduled_def)
qed

lemma idle_manager_step:
  assumes "\<not> enabled (recoveryOptions mgr)" and "idle mgr"
  shows "idle (manager_step mgr ev)"
proof (cases ev)
  case (EmitModuleError n operation)
  then show ?thesis using assms by (simp add: disabled_on_moduleError)
next
  case (ModuleHandlesError n operation err)
  then show ?thesis
    using assms
    by (simp add: disabled_deliver options_put_module idle_put_module
        split: option.splits prod.splits)
next
  case (TimerFires onInitialize onStart)
  then show ?thesis using assms by (simp add: fire_timer_def idle_def)
next
  case (RecoverModule n onInitialize onStart)
  then show ?thesis
    using assms by (simp add: recoverModule_def idle_recovery_run split: option.splits)
qed

lemma idle_manager_run:
  "\<not> enabled (recoveryOptions mgr) \<Longrightarrow> idle mgr \<Longrightarrow> idle (manager_run mgr evs)"
  unfolding manager_run_def
  by (induction evs arbitrary: mgr) (simp_all add: idle_manager_step options_manager_step)

lemma scheduled_segment_bound:
  assumes "journal mgr0 = []" and "recoveryAttempts mgr0 = Map.empty"
    and "journal (manager_run mgr0 evs) = pre @ seg @ post" and "Recovered n \<notin> set seg"
  shows "scheduled_count n seg \<le> maxAttempts (recoveryOptions mgr0)"
proof -
  have "supervisor_inv mgr0"
    using assms(1,2) by (simp add: supervisor_inv_def counters_agree_empty)
  then have "supervisor_inv (manager_run mgr0 evs)" by (rule inv_manager_run)
  then have "attempts_since n (take (length (pre @ seg)) (pre @ seg @ post))
      \<le> maxAttempts (recoveryOptions mgr0)"
    unfolding supervisor_inv_def counters_agree_def assms(3) options_manager_run by blast
  then have "attempts_since n (pre @ seg) \<le> maxAttempts (recoveryOptions mgr0)" by simp
  then show ?thesis using attempts_since_segment [OF assms(4), of pre] by simp
qed

lemma recovery_run_deletes_counter:
  "fst (recovery_run onInitialize onStart mgr n mdl) \<Longrightarrow>
     recoveryAttempts (snd (recovery_run onInitialize onStart mgr n mdl)) n = None"
  by (simp add: recovery_run_def Let_def split: prod.splits option.splits)

lemma recovery_run_succeeds: "fst (recovery_run None None mgr n mdl)"
  by (simp add: recovery_run_def lifecycle_eval split: prod.splits option.splits)

lemma fire_timer_deletes_counter:
  assumes "timers mgr = (n, k) # rest" and "getModule mgr n = Some mdl" and "hasError mdl"
  shows "recoveryAttempts (fire_timer None None mgr) n = None"
proof -
  have g: "getModule (mgr\<lparr>timers := rest\<rparr>) n = Some mdl"
    using assms(2) by (simp add: getModule_def)
  show ?thesis
    using assms(1,3) g
    by (simp add: fire_timer_def recovery_callback_def
        recovery_run_deletes_counter [OF recovery_run_succeeds])
qed

lemma on_moduleError_schedules:
  assumes "enabled (recoveryOptions mgr)" and "n \<noteq> []" and "operation \<noteq> ''initialization''"
    and "attempts_of mgr n < maxAttempts (recoveryOptions mgr)"
  shows "recoveryAttempts (on_moduleError mgr n operation) n = Some (attempts_of mgr n + 1)
    \<and> timers (on_moduleError mgr n operation) = timers mgr @ [(n, attempts_of mgr n + 1)]
    \<and> journal (on_moduleError mgr n operation)
        = journal mgr @ [Scheduled n (attempts_of mgr n + 1)]"
  using assms by (simp add: on_moduleError_def attemptModuleRecovery_def attempts_of_def Let_def)

lemma on_moduleError_limit:
  assumes "maxAttempts (recoveryOptions mgr) \<le> attempts_of mgr n"
  shows "recoveryAttempts (on_moduleError mgr n operation) = recoveryAttempts mgr
    \<and> timers (on_moduleError mgr n operation) = timers mgr"
  using assms by (simp add: on_moduleError_def attemptModuleRecovery_def attempts_of_def Let_def)


text \<open>
  Claim C5, as amended. The \<^verbatim>\<open>moduleError\<close> listener schedules nothing for the operation
  \<^verbatim>\<open>initialization\<close>, and nothing at all when recovery is disabled: a manager with recovery
  disabled, no pending timer and nothing scheduled stays so whatever happens to it. With
  recovery enabled, a \<^verbatim>\<open>moduleError\<close> of another operation for a named module whose counter
  is below \<^verbatim>\<open>maxAttempts\<close> increments the counter, then schedules one timer carrying the new
  attempt number; at \<^verbatim>\<open>maxAttempts\<close> it schedules nothing and leaves the counter alone. In
  every history of a manager that starts with no counters, any stretch of the journal that
  contains no successful recovery of a module contains at most \<^verbatim>\<open>maxAttempts\<close> recoveries
  scheduled for it. A recovery run that succeeds deletes the module's counter, and the
  timer's run succeeds when the hooks do.

  The bound is on the recoveries scheduled, which is what the counter counts: a timer
  scheduled before a successful recovery is not cancelled by it and still runs afterwards.
\<close>

theorem supervisor_schedules_at_most_maxAttempts:
  "on_moduleError mgr n ''initialization'' = mgr
   \<and> (\<not> enabled (recoveryOptions mgr) \<longrightarrow> on_moduleError mgr n operation = mgr)
   \<and> (\<not> enabled (recoveryOptions mgr0) \<and> idle mgr0 \<longrightarrow> idle (manager_run mgr0 evs))
   \<and> (enabled (recoveryOptions mgr) \<and> n \<noteq> [] \<and> operation \<noteq> ''initialization''
        \<and> attempts_of mgr n < maxAttempts (recoveryOptions mgr) \<longrightarrow>
          recoveryAttempts (on_moduleError mgr n operation) n = Some (attempts_of mgr n + 1)
          \<and> timers (on_moduleError mgr n operation) = timers mgr @ [(n, attempts_of mgr n + 1)]
          \<and> journal (on_moduleError mgr n operation)
              = journal mgr @ [Scheduled n (attempts_of mgr n + 1)])
   \<and> (maxAttempts (recoveryOptions mgr) \<le> attempts_of mgr n \<longrightarrow>
          recoveryAttempts (on_moduleError mgr n operation) = recoveryAttempts mgr
          \<and> timers (on_moduleError mgr n operation) = timers mgr)
   \<and> (journal mgr0 = [] \<and> recoveryAttempts mgr0 = Map.empty
        \<and> journal (manager_run mgr0 evs) = pre @ seg @ post \<and> Recovered n \<notin> set seg \<longrightarrow>
          scheduled_count n seg \<le> maxAttempts (recoveryOptions mgr0))
   \<and> (fst (recovery_run onInitialize onStart mgr n mdl) \<longrightarrow>
          recoveryAttempts (snd (recovery_run onInitialize onStart mgr n mdl)) n = None)
   \<and> (timers mgr = (n, k) # rest \<and> getModule mgr n = Some mdl \<and> hasError mdl \<longrightarrow>
          recoveryAttempts (fire_timer None None mgr) n = None)"
proof (intro conjI impI)
  show "on_moduleError mgr n ''initialization'' = mgr" by (simp add: on_moduleError_def)
next
  assume "\<not> enabled (recoveryOptions mgr)"
  then show "on_moduleError mgr n operation = mgr" by (rule disabled_on_moduleError)
next
  assume "\<not> enabled (recoveryOptions mgr0) \<and> idle mgr0"
  then show "idle (manager_run mgr0 evs)" by (simp add: idle_manager_run)
next
  assume a: "enabled (recoveryOptions mgr) \<and> n \<noteq> [] \<and> operation \<noteq> ''initialization''
      \<and> attempts_of mgr n < maxAttempts (recoveryOptions mgr)"
  then have s: "recoveryAttempts (on_moduleError mgr n operation) n = Some (attempts_of mgr n + 1)
    \<and> timers (on_moduleError mgr n operation) = timers mgr @ [(n, attempts_of mgr n + 1)]
    \<and> journal (on_moduleError mgr n operation)
        = journal mgr @ [Scheduled n (attempts_of mgr n + 1)]"
    by (intro on_moduleError_schedules) simp_all
  from s show "recoveryAttempts (on_moduleError mgr n operation) n
      = Some (attempts_of mgr n + 1)" by (rule conjunct1)
  from s show "timers (on_moduleError mgr n operation)
      = timers mgr @ [(n, attempts_of mgr n + 1)]" by (elim conjE)
  from s show "journal (on_moduleError mgr n operation)
      = journal mgr @ [Scheduled n (attempts_of mgr n + 1)]" by (elim conjE)
next
  assume a: "maxAttempts (recoveryOptions mgr) \<le> attempts_of mgr n"
  from on_moduleError_limit [OF a]
  show "recoveryAttempts (on_moduleError mgr n operation) = recoveryAttempts mgr"
    by (rule conjunct1)
  from on_moduleError_limit [OF a]
  show "timers (on_moduleError mgr n operation) = timers mgr" by (rule conjunct2)
next
  assume "journal mgr0 = [] \<and> recoveryAttempts mgr0 = Map.empty
        \<and> journal (manager_run mgr0 evs) = pre @ seg @ post \<and> Recovered n \<notin> set seg"
  then show "scheduled_count n seg \<le> maxAttempts (recoveryOptions mgr0)"
    by (intro scheduled_segment_bound [of mgr0 evs pre seg post n]) simp_all
next
  assume "fst (recovery_run onInitialize onStart mgr n mdl)"
  then show "recoveryAttempts (snd (recovery_run onInitialize onStart mgr n mdl)) n = None"
    by (rule recovery_run_deletes_counter)
next
  assume "timers mgr = (n, k) # rest \<and> getModule mgr n = Some mdl \<and> hasError mdl"
  then show "recoveryAttempts (fire_timer None None mgr) n = None"
    by (intro fire_timer_deletes_counter [of mgr n k rest mdl]) simp_all
qed

theorem supervisor_schedules_at_most_maxAttempts_witness:
  "\<not> enabled (recoveryOptions (new_manager True default_recovery))
   \<and> idle (new_manager True default_recovery)
   \<and> idle (manager_run (new_manager True default_recovery) [EmitModuleError ''X'' ''start''])
   \<and> enabled (recoveryOptions supervised_manager)
   \<and> attempts_of supervised_manager ''X'' < maxAttempts (recoveryOptions supervised_manager)
   \<and> timers (on_moduleError supervised_manager ''X'' ''start'') = [(''X'', 1)]
   \<and> recoveryAttempts (on_moduleError supervised_manager ''X'' ''start'') ''X'' = Some 1
   \<and> journal supervised_manager = []
   \<and> recoveryAttempts supervised_manager = Map.empty
   \<and> journal (manager_run supervised_manager stale_timer_history)
       = [Scheduled ''X'' 1, Scheduled ''X'' 2, Attempting ''X'' 1, Recovered ''X'']
         @ [Scheduled ''X'' 1, Scheduled ''X'' 2, Attempting ''X'' 2, RecoveryFailed ''X'',
            Attempting ''X'' 1, RecoveryFailed ''X'', Attempting ''X'' 2, RecoveryFailed ''X'']
         @ []
   \<and> scheduled_count ''X''
         [Scheduled ''X'' 1, Scheduled ''X'' 2, Attempting ''X'' 2, RecoveryFailed ''X'',
          Attempting ''X'' 1, RecoveryFailed ''X'', Attempting ''X'' 2, RecoveryFailed ''X'']
       \<le> maxAttempts (recoveryOptions supervised_manager)
   \<and> timers (manager_run supervised_manager
         [ModuleHandlesError ''X'' ''start'' ''start failed'', EmitModuleError ''X'' ''start''])
       = [(''X'', 1), (''X'', 2)]
   \<and> recoveryAttempts (manager_run supervised_manager
         [ModuleHandlesError ''X'' ''start'' ''start failed'', EmitModuleError ''X'' ''start''])
         ''X'' = Some 2
   \<and> recoveryAttempts (fire_timer None None (manager_run supervised_manager
         [ModuleHandlesError ''X'' ''start'' ''start failed'', EmitModuleError ''X'' ''start'']))
         ''X'' = None"
proof -
  let ?off = "new_manager True default_recovery"
  let ?seg = "[Scheduled ''X'' 1, Scheduled ''X'' 2, Attempting ''X'' 2, RecoveryFailed ''X'',
      Attempting ''X'' 1, RecoveryFailed ''X'', Attempting ''X'' 2, RecoveryFailed ''X'']"
  let ?pre = "[Scheduled ''X'' 1, Scheduled ''X'' 2, Attempting ''X'' 1, Recovered ''X'']"
  let ?pending = "manager_run supervised_manager
      [ModuleHandlesError ''X'' ''start'' ''start failed'', EmitModuleError ''X'' ''start'']"
  have off: "\<not> enabled (recoveryOptions ?off)" "idle ?off"
    by (simp_all add: manager_eval idle_def)
  have on: "enabled (recoveryOptions supervised_manager)"
    "attempts_of supervised_manager ''X'' < maxAttempts (recoveryOptions supervised_manager)"
    "journal supervised_manager = []" "recoveryAttempts supervised_manager = Map.empty"
    "timers supervised_manager = []"
    by (simp_all add: supervised_manager_def manager_eval attempts_of_def)
  have j: "journal (manager_run supervised_manager stale_timer_history) = ?pre @ ?seg @ []"
    by (simp add: supervised_manager_def stale_timer_history_def manager_eval lifecycle_eval
        supervisor_eval)
  have seg: "Recovered ''X'' \<notin> set ?seg" by simp
  have p: "timers ?pending = [(''X'', 1), (''X'', 2)]"
    "recoveryAttempts ?pending ''X'' = Some 2"
    "getModule ?pending ''X'' \<noteq> None"
    "hasError (the (getModule ?pending ''X''))"
    by (simp_all add: supervised_manager_def manager_eval lifecycle_eval supervisor_eval)
  have a0: "attempts_of supervised_manager ''X'' = 0"
    by (simp add: supervised_manager_def manager_eval attempts_of_def)
  have 1: "idle (manager_run ?off [EmitModuleError ''X'' ''start''])"
    using supervisor_schedules_at_most_maxAttempts
      [where ?mgr0.0 = ?off and evs = "[EmitModuleError ''X'' ''start'']"] off
    by blast
  have 2: "timers (on_moduleError supervised_manager ''X'' ''start'') = [(''X'', 1)]
      \<and> recoveryAttempts (on_moduleError supervised_manager ''X'' ''start'') ''X'' = Some 1"
    using supervisor_schedules_at_most_maxAttempts
      [where mgr = supervised_manager and n = "''X''" and operation = "''start''"] on a0
    by simp
  have 3: "scheduled_count ''X'' ?seg \<le> maxAttempts (recoveryOptions supervised_manager)"
    using supervisor_schedules_at_most_maxAttempts
      [where ?mgr0.0 = supervised_manager and evs = stale_timer_history and pre = ?pre
        and seg = ?seg and post = "[]" and n = "''X''"] on j seg
    by blast
  have 4: "recoveryAttempts (fire_timer None None ?pending) ''X'' = None"
    using supervisor_schedules_at_most_maxAttempts
      [where mgr = ?pending and n = "''X''" and k = 1 and rest = "[(''X'', 2)]"
        and mdl = "the (getModule ?pending ''X'')"] p
    by auto
  show ?thesis using off on j 1 2 3 4 p(1,2) by blast
qed

text \<open>
  The recoveries that run are not bounded in the same way. With \<^verbatim>\<open>maxAttempts = 2\<close>: two
  recoveries are scheduled, the first one succeeds, the module fails again and two more are
  scheduled; the timer left over from before the success and the two new ones then each run
  a recovery that fails: three runs since the last successful recovery.
\<close>

theorem stale_timer_counterexample:
  "journal (manager_run supervised_manager stale_timer_history)
     = [Scheduled ''X'' 1, Scheduled ''X'' 2, Attempting ''X'' 1, Recovered ''X'']
       @ [Scheduled ''X'' 1, Scheduled ''X'' 2, Attempting ''X'' 2, RecoveryFailed ''X'',
          Attempting ''X'' 1, RecoveryFailed ''X'', Attempting ''X'' 2, RecoveryFailed ''X'']
   \<and> Recovered ''X'' \<notin> set
         [Scheduled ''X'' 1, Scheduled ''X'' 2, Attempting ''X'' 2, RecoveryFailed ''X'',
          Attempting ''X'' 1, RecoveryFailed ''X'', Attempting ''X'' 2, RecoveryFailed ''X'']
   \<and> attempting_count ''X''
         [Scheduled ''X'' 1, Scheduled ''X'' 2, Attempting ''X'' 2, RecoveryFailed ''X'',
          Attempting ''X'' 1, RecoveryFailed ''X'', Attempting ''X'' 2, RecoveryFailed ''X''] = 3
   \<and> maxAttempts (recoveryOptions supervised_manager) = 2"
  by (simp add: supervised_manager_def stale_timer_history_def manager_eval lifecycle_eval
      supervisor_eval attempting_count_def is_attempting_def)

end
